theory Spec2Isabelle
  imports Complex_Main "HOL-Library.Word"
begin

unbundle bit_operations_syntax

section \<open>Machine types and failures\<close>

text \<open>
  Go's \<open>uint\<close> is taken at 64 bits (a 64-bit platform), \<open>uint32\<close> and \<open>uint8\<close> at
  their fixed widths. Arithmetic on them wraps around, as \<open>+\<close>, \<open>-\<close> and \<open>*\<close> on
  words do.

  A Go run-time panic is an \<open>error\<close> value: the remainder \<open>% c.m\<close> with \<open>c.m = 0\<close>
  (\<open>DivideByZero\<close>), a slice index beyond the length of \<open>indexBuffer\<close>
  (\<open>IndexOutOfRange\<close>), a bucket index beyond the bucket array (\<open>OutOfRange\<close>), and
  a length that \<open>make\<close> refuses (\<open>LenOutOfRange\<close>).
\<close>

type_synonym byte = "8 word"
type_synonym uint32 = "32 word"
type_synonym uint = "64 word"

datatype error = DivideByZero | IndexOutOfRange | OutOfRange | LenOutOfRange

section \<open>The bucket array\<close>

text \<open>
  Modelled from the spec: the type \<open>Buckets\<close> is used by \<open>counting.go\<close> but defined in
  another file of the repository. The specification's BucketArray is followed: \<open>m\<close>
  counters of \<open>b\<close> bits each, every one in \<open>[0, 2^b - 1]\<close>.
\<close>

record Buckets =
  bucketWidth :: nat
  counters :: "nat list"

definition bucketCount :: "Buckets \<Rightarrow> nat" where
  "bucketCount bk = length (counters bk)"

definition maxValue :: "Buckets \<Rightarrow> nat" where
  "maxValue bk = 2 ^ bucketWidth bk - 1"

text \<open>
  Modelled from the spec: \<open>NewBuckets\<close>, missing with the type, allocates the array
  with all counters zero.
\<close>

definition NewBuckets :: "uint \<Rightarrow> 8 word \<Rightarrow> Buckets" where
  "NewBuckets cnt bits = \<lparr>bucketWidth = unat bits, counters = replicate (unat cnt) 0\<rparr>"

text \<open>
  Modelled from the spec: \<open>Get\<close>, missing with the type, returns the counter at
  \<open>index\<close> and fails with OutOfRange when \<open>index \<ge> m\<close>.
\<close>

definition Get :: "Buckets \<Rightarrow> uint \<Rightarrow> error + nat" where
  "Get bk index =
     (if unat index < bucketCount bk then Inr (counters bk ! unat index) else Inl OutOfRange)"

text \<open>
  Modelled from the spec: \<open>Increment\<close>, missing with the type, adds a positive or
  negative delta to the counter at \<open>index\<close>; the result is clamped, it never exceeds
  \<open>2^b - 1\<close> and never goes below 0. An index out of range is a failure, as for \<open>Get\<close>.
\<close>

definition clamp :: "nat \<Rightarrow> int \<Rightarrow> nat" where
  "clamp mx val = (if val > int mx then mx else if val < 0 then 0 else nat val)"

definition Increment :: "Buckets \<Rightarrow> uint \<Rightarrow> int \<Rightarrow> error + Buckets" where
  "Increment bk index delta =
     (if unat index < bucketCount bk
      then Inr (bk\<lparr>counters :=
                  (counters bk)[unat index :=
                     clamp (maxValue bk) (int (counters bk ! unat index) + delta)]\<rparr>)
      else Inl OutOfRange)"

text \<open>Modelled from the spec: \<open>Reset\<close> of the bucket array, missing with the type, zeroes every counter.\<close>

definition Buckets_Reset :: "Buckets \<Rightarrow> Buckets" where
  "Buckets_Reset bk = bk\<lparr>counters := replicate (bucketCount bk) 0\<rparr>"

section \<open>The hash object\<close>

text \<open>
  The field \<open>hash\<close> is a \<open>hash.Hash64\<close> of Go's standard library. Its state is the
  bytes written since the last \<open>Reset\<close>; \<open>sum64\<close> is the digest function of the
  implementation. \<open>Write\<close> adds data to the running hash, \<open>Sum(nil)\<close> returns the
  digest of what was written as eight bytes, most significant first, and does not
  change the state, \<open>Reset\<close> forgets what was written.
\<close>

record Hash64 =
  sum64 :: "byte list \<Rightarrow> 64 word"
  written :: "byte list"

definition hash_Write :: "Hash64 \<Rightarrow> byte list \<Rightarrow> Hash64" where
  "hash_Write h data = h\<lparr>written := written h @ data\<rparr>"

definition hash_Sum :: "Hash64 \<Rightarrow> byte list" where
  "hash_Sum h =
     (let d = sum64 h (written h)
      in [ucast (drop_bit 56 d), ucast (drop_bit 48 d), ucast (drop_bit 40 d),
          ucast (drop_bit 32 d), ucast (drop_bit 24 d), ucast (drop_bit 16 d),
          ucast (drop_bit 8 d), ucast d])"

definition hash_Reset :: "Hash64 \<Rightarrow> Hash64" where
  "hash_Reset h = h\<lparr>written := []\<rparr>"

text \<open>
  \<open>fnv.New64()\<close> is the 64-bit FNV-1 hash: starting from the offset basis, every byte
  multiplies the state by the FNV prime and is then XORed into it.
\<close>

definition offset64 :: "64 word" where
  "offset64 = 14695981039346656037"

definition prime64 :: "64 word" where
  "prime64 = 1099511628211"

definition fnv1_64 :: "byte list \<Rightarrow> 64 word" where
  "fnv1_64 data = fold (\<lambda>c h. (h * prime64) XOR ucast c) data offset64"

definition fnv_New64 :: Hash64 where
  "fnv_New64 = \<lparr>sum64 = fnv1_64, written = []\<rparr>"

text \<open>\<open>binary.BigEndian.Uint32\<close> on a slice of four bytes.\<close>

definition BigEndian_Uint32 :: "byte list \<Rightarrow> uint32" where
  "BigEndian_Uint32 bs =
     ucast (bs ! 3) OR push_bit 8 (ucast (bs ! 2)) OR push_bit 16 (ucast (bs ! 1))
       OR push_bit 24 (ucast (bs ! 0))"

section \<open>The counting Bloom filter\<close>

record CountingBloomFilter =
  buckets :: Buckets
  hash :: Hash64
  m :: uint
  k :: uint
  b :: "8 word"
  count :: uint
  indexBuffer :: "uint list"

text \<open>
  \<open>make([]uint, k)\<close> returns \<open>k\<close> zeros, and panics at run time when \<open>k\<close> is larger
  than the longest slice the platform allows. That limit depends on the platform and
  is the parameter \<open>maxLen\<close> (on a 64-bit platform it is below \<open>2^63\<close>). Running out of
  memory below the limit is not a panic and is not modelled.
\<close>

definition make_uints :: "nat \<Rightarrow> uint \<Rightarrow> error + uint list" where
  "make_uints maxLen len =
     (if unat len \<le> maxLen then Inr (replicate (unat len) 0) else Inl LenOutOfRange)"

text \<open>
  \<open>NewCountingBloomFilter\<close>. The sizing helpers \<open>OptimalM\<close> and \<open>OptimalK\<close> are
  defined in another file and compute on \<open>float64\<close>; they are parameters here, and
  the type of \<open>fpRate\<close> is left open. The Go constructor has no error result and
  checks none of its arguments; it fails only where \<open>make\<close> panics on the index buffer.
\<close>

definition NewCountingBloomFilter ::
  "nat \<Rightarrow> (uint \<Rightarrow> 'fp \<Rightarrow> uint) \<Rightarrow> ('fp \<Rightarrow> uint) \<Rightarrow> uint \<Rightarrow> 8 word \<Rightarrow> 'fp
     \<Rightarrow> error + CountingBloomFilter" where
  "NewCountingBloomFilter maxLen OptimalM OptimalK n bits fpRate =
     (let m0 = OptimalM n fpRate;
          k0 = OptimalK fpRate
      in case make_uints maxLen k0 of
           Inl e \<Rightarrow> Inl e
         | Inr buf \<Rightarrow>
             Inr \<lparr>buckets = NewBuckets m0 bits,
                  hash = fnv_New64,
                  m = m0,
                  k = k0,
                  b = bits,
                  count = 0,
                  indexBuffer = buf\<rparr>)"

definition NewDefaultCountingBloomFilter ::
  "nat \<Rightarrow> (uint \<Rightarrow> 'fp \<Rightarrow> uint) \<Rightarrow> ('fp \<Rightarrow> uint) \<Rightarrow> uint \<Rightarrow> 'fp
     \<Rightarrow> error + CountingBloomFilter" where
  "NewDefaultCountingBloomFilter maxLen OptimalM OptimalK n fpRate =
     NewCountingBloomFilter maxLen OptimalM OptimalK n 4 fpRate"

definition Capacity :: "CountingBloomFilter \<Rightarrow> uint" where
  "Capacity c = m c"

definition K :: "CountingBloomFilter \<Rightarrow> uint" where
  "K c = k c"

definition Count :: "CountingBloomFilter \<Rightarrow> uint" where
  "Count c = count c"

text \<open>
  \<open>hashKernel\<close> writes the data, reads the digest, resets the hash and returns the
  low half (bytes 4 to 7) and the high half (bytes 0 to 3) of the digest.
\<close>

definition hashKernel ::
  "CountingBloomFilter \<Rightarrow> byte list \<Rightarrow> (uint32 \<times> uint32) \<times> CountingBloomFilter" where
  "hashKernel c data =
     (let h1 = hash_Write (hash c) data;
          sum = hash_Sum h1;
          h2 = hash_Reset h1
      in ((BigEndian_Uint32 (take 4 (drop 4 sum)), BigEndian_Uint32 (take 4 sum)),
          c\<lparr>hash := h2\<rparr>))"

subsection \<open>Test\<close>

function Test_loop :: "CountingBloomFilter \<Rightarrow> uint32 \<Rightarrow> uint32 \<Rightarrow> uint \<Rightarrow> error + bool" where
  "Test_loop c lower upper i =
     (if i < k c then
        (if m c = 0 then Inl DivideByZero
         else case Get (buckets c) ((ucast lower + ucast upper * i) mod m c) of
                Inl e \<Rightarrow> Inl e
              | Inr v \<Rightarrow> if v = 0 then Inr False else Test_loop c lower upper (i + 1))
      else Inr True)"
  by pat_completeness auto

termination Test_loop
  by (relation "measure (\<lambda>(c, lower, upper, i). unat (k c) - unat i)")
     (auto, unat_arith)

declare Test_loop.simps [simp del]

definition Test :: "CountingBloomFilter \<Rightarrow> byte list \<Rightarrow> error + (bool \<times> CountingBloomFilter)" where
  "Test c data =
     (case hashKernel c data of
        ((lower, upper), c1) \<Rightarrow>
          (case Test_loop c1 lower upper 0 of
             Inl e \<Rightarrow> Inl e
           | Inr r \<Rightarrow> Inr (r, c1)))"

subsection \<open>Add\<close>

function Add_loop ::
  "CountingBloomFilter \<Rightarrow> uint32 \<Rightarrow> uint32 \<Rightarrow> uint \<Rightarrow> error + CountingBloomFilter" where
  "Add_loop c lower upper i =
     (if i < k c then
        (if m c = 0 then Inl DivideByZero
         else case Increment (buckets c) ((ucast lower + ucast upper * i) mod m c) 1 of
                Inl e \<Rightarrow> Inl e
              | Inr bk \<Rightarrow> Add_loop (c\<lparr>buckets := bk\<rparr>) lower upper (i + 1))
      else Inr c)"
  by pat_completeness auto

termination Add_loop
  by (relation "measure (\<lambda>(c, lower, upper, i). unat (k c) - unat i)")
     (auto, unat_arith)

declare Add_loop.simps [simp del]

definition Add :: "CountingBloomFilter \<Rightarrow> byte list \<Rightarrow> error + CountingBloomFilter" where
  "Add c data =
     (case hashKernel c data of
        ((lower, upper), c1) \<Rightarrow>
          (case Add_loop c1 lower upper 0 of
             Inl e \<Rightarrow> Inl e
           | Inr c2 \<Rightarrow> Inr (c2\<lparr>count := count c2 + 1\<rparr>)))"

subsection \<open>TestAndAdd\<close>

function TestAndAdd_loop ::
  "CountingBloomFilter \<Rightarrow> uint32 \<Rightarrow> uint32 \<Rightarrow> bool \<Rightarrow> uint
     \<Rightarrow> error + (bool \<times> CountingBloomFilter)" where
  "TestAndAdd_loop c lower upper member i =
     (if i < k c then
        (if m c = 0 then Inl DivideByZero
         else let idx = (ucast lower + ucast upper * i) mod m c
              in case Get (buckets c) idx of
                   Inl e \<Rightarrow> Inl e
                 | Inr v \<Rightarrow>
                     (case Increment (buckets c) idx 1 of
                        Inl e \<Rightarrow> Inl e
                      | Inr bk \<Rightarrow>
                          TestAndAdd_loop (c\<lparr>buckets := bk\<rparr>) lower upper
                            (if v = 0 then False else member) (i + 1)))
      else Inr (member, c))"
  by pat_completeness auto

termination TestAndAdd_loop
  by (relation "measure (\<lambda>(c, lower, upper, member, i). unat (k c) - unat i)")
     (auto, unat_arith)

declare TestAndAdd_loop.simps [simp del]

definition TestAndAdd ::
  "CountingBloomFilter \<Rightarrow> byte list \<Rightarrow> error + (bool \<times> CountingBloomFilter)" where
  "TestAndAdd c data =
     (case hashKernel c data of
        ((lower, upper), c1) \<Rightarrow>
          (case TestAndAdd_loop c1 lower upper True 0 of
             Inl e \<Rightarrow> Inl e
           | Inr (member, c2) \<Rightarrow> Inr (member, c2\<lparr>count := count c2 + 1\<rparr>)))"

subsection \<open>TestAndRemove\<close>

function TestAndRemove_loop ::
  "CountingBloomFilter \<Rightarrow> uint32 \<Rightarrow> uint32 \<Rightarrow> bool \<Rightarrow> uint
     \<Rightarrow> error + (bool \<times> CountingBloomFilter)" where
  "TestAndRemove_loop c lower upper member i =
     (if i < k c then
        (if m c = 0 then Inl DivideByZero
         else if \<not> unat i < length (indexBuffer c) then Inl IndexOutOfRange
         else let c1 = c\<lparr>indexBuffer :=
                          (indexBuffer c)[unat i := (ucast lower + ucast upper * i) mod m c]\<rparr>
              in case Get (buckets c1) (indexBuffer c1 ! unat i) of
                   Inl e \<Rightarrow> Inl e
                 | Inr v \<Rightarrow>
                     TestAndRemove_loop c1 lower upper
                       (if v = 0 then False else member) (i + 1))
      else Inr (member, c))"
  by pat_completeness auto

termination TestAndRemove_loop
  by (relation "measure (\<lambda>(c, lower, upper, member, i). unat (k c) - unat i)")
     (auto, unat_arith)

declare TestAndRemove_loop.simps [simp del]

fun decrement_all :: "Buckets \<Rightarrow> uint list \<Rightarrow> error + Buckets" where
  "decrement_all bk [] = Inr bk"
| "decrement_all bk (idx # idxs) =
     (case Increment bk idx (- 1) of
        Inl e \<Rightarrow> Inl e
      | Inr bk1 \<Rightarrow> decrement_all bk1 idxs)"

definition TestAndRemove ::
  "CountingBloomFilter \<Rightarrow> byte list \<Rightarrow> error + (bool \<times> CountingBloomFilter)" where
  "TestAndRemove c data =
     (case hashKernel c data of
        ((lower, upper), c1) \<Rightarrow>
          (case TestAndRemove_loop c1 lower upper True 0 of
             Inl e \<Rightarrow> Inl e
           | Inr (member, c2) \<Rightarrow>
               if member then
                 (case decrement_all (buckets c2) (indexBuffer c2) of
                    Inl e \<Rightarrow> Inl e
                  | Inr bk \<Rightarrow> Inr (member, c2\<lparr>buckets := bk, count := count c2 - 1\<rparr>))
               else Inr (member, c2)))"

subsection \<open>Reset\<close>

definition Reset :: "CountingBloomFilter \<Rightarrow> CountingBloomFilter" where
  "Reset c = c\<lparr>buckets := Buckets_Reset (buckets c), count := 0\<rparr>"

section \<open>Sequences of operations\<close>

text \<open>The public surface as a datatype, and what each call returns.\<close>

datatype op =
  OpAdd "byte list"
| OpTest "byte list"
| OpTestAndAdd "byte list"
| OpTestAndRemove "byte list"
| OpReset
| OpCapacity
| OpK
| OpCount

datatype outcome = RetSelf | RetBool bool | RetUint uint

fun step :: "CountingBloomFilter \<Rightarrow> op \<Rightarrow> error + (outcome \<times> CountingBloomFilter)" where
  "step c (OpAdd data) =
     (case Add c data of Inl e \<Rightarrow> Inl e | Inr c1 \<Rightarrow> Inr (RetSelf, c1))"
| "step c (OpTest data) =
     (case Test c data of Inl e \<Rightarrow> Inl e | Inr (r, c1) \<Rightarrow> Inr (RetBool r, c1))"
| "step c (OpTestAndAdd data) =
     (case TestAndAdd c data of Inl e \<Rightarrow> Inl e | Inr (r, c1) \<Rightarrow> Inr (RetBool r, c1))"
| "step c (OpTestAndRemove data) =
     (case TestAndRemove c data of Inl e \<Rightarrow> Inl e | Inr (r, c1) \<Rightarrow> Inr (RetBool r, c1))"
| "step c OpReset = Inr (RetSelf, Reset c)"
| "step c OpCapacity = Inr (RetUint (Capacity c), c)"
| "step c OpK = Inr (RetUint (K c), c)"
| "step c OpCount = Inr (RetUint (Count c), c)"

text \<open>A sequence of calls stops at the first panic.\<close>

fun run :: "CountingBloomFilter \<Rightarrow> op list \<Rightarrow> error + (outcome list \<times> CountingBloomFilter)" where
  "run c [] = Inr ([], c)"
| "run c (x # xs) =
     (case step c x of
        Inl e \<Rightarrow> Inl e
      | Inr (r, c1) \<Rightarrow>
          (case run c1 xs of
             Inl e \<Rightarrow> Inl e
           | Inr (rs, c2) \<Rightarrow> Inr (r # rs, c2)))"

fun add_all :: "CountingBloomFilter \<Rightarrow> byte list list \<Rightarrow> error + CountingBloomFilter" where
  "add_all c [] = Inr c"
| "add_all c (x # xs) =
     (case Add c x of Inl e \<Rightarrow> Inl e | Inr c1 \<Rightarrow> add_all c1 xs)"

text \<open>\<open>Test\<close> followed by \<open>Add\<close> on the state \<open>Test\<close> leaves.\<close>

definition Test_then_Add ::
  "CountingBloomFilter \<Rightarrow> byte list \<Rightarrow> error + (bool \<times> CountingBloomFilter)" where
  "Test_then_Add c data =
     (case Test c data of
        Inl e \<Rightarrow> Inl e
      | Inr (r, c1) \<Rightarrow> (case Add c1 data of Inl e \<Rightarrow> Inl e | Inr c2 \<Rightarrow> Inr (r, c2)))"

section \<open>Notions used in the statements\<close>

text \<open>
  The bucket indices of an element: one digest, its low and high 32 bits, and for
  round \<open>i\<close> below \<open>k\<close> the index \<open>(lower + upper * i) mod m\<close>, computed on \<open>uint\<close>.
\<close>

definition bucketIndex :: "uint32 \<Rightarrow> uint32 \<Rightarrow> uint \<Rightarrow> nat \<Rightarrow> uint" where
  "bucketIndex lower upper mm i = (ucast lower + ucast upper * of_nat i) mod mm"

definition rounds :: "CountingBloomFilter \<Rightarrow> uint32 \<Rightarrow> uint32 \<Rightarrow> nat \<Rightarrow> uint list" where
  "rounds c lower upper i = map (bucketIndex lower upper (m c)) [i..<unat (k c)]"

definition indexList :: "CountingBloomFilter \<Rightarrow> byte list \<Rightarrow> uint list" where
  "indexList c data =
     (let d = sum64 (hash c) data
      in rounds c (ucast d) (ucast (drop_bit 32 d)) 0)"

text \<open>
  The effect of a successful \<open>Increment\<close>, and of a series of them; \<open>test_bump\<close> is
  the membership flag of a loop that reads each bucket before incrementing it.
\<close>

definition bump :: "Buckets \<Rightarrow> uint \<Rightarrow> int \<Rightarrow> Buckets" where
  "bump bk index delta =
     bk\<lparr>counters :=
          (counters bk)[unat index :=
             clamp (maxValue bk) (int (counters bk ! unat index) + delta)]\<rparr>"

fun bump_all :: "int \<Rightarrow> Buckets \<Rightarrow> uint list \<Rightarrow> Buckets" where
  "bump_all delta bk [] = bk"
| "bump_all delta bk (idx # idxs) = bump_all delta (bump bk idx delta) idxs"

fun test_bump :: "Buckets \<Rightarrow> uint list \<Rightarrow> bool \<Rightarrow> bool" where
  "test_bump bk [] member = member"
| "test_bump bk (idx # idxs) member =
     test_bump (bump bk idx 1) idxs (if counters bk ! unat idx = 0 then False else member)"

definition nonzero :: "Buckets \<Rightarrow> uint \<Rightarrow> bool" where
  "nonzero bk index = (counters bk ! unat index \<noteq> 0)"

text \<open>
  The invariant of a filter between two calls: the hash is reset, the bucket array has
  \<open>m\<close> counters, none above the maximum of its width, and the index buffer has
  length \<open>k\<close>.
\<close>

definition bounded :: "Buckets \<Rightarrow> bool" where
  "bounded bk = list_all (\<lambda>v. v \<le> maxValue bk) (counters bk)"

definition in_range :: "Buckets \<Rightarrow> uint list \<Rightarrow> bool" where
  "in_range bk idxs = list_all (\<lambda>idx. unat idx < bucketCount bk) idxs"

definition invar :: "CountingBloomFilter \<Rightarrow> bool" where
  "invar c \<longleftrightarrow>
     written (hash c) = [] \<and>
     bucketCount (buckets c) = unat (m c) \<and>
     bounded (buckets c) \<and>
     length (indexBuffer c) = unat (k c)"

text \<open>
  Saturation: an increment meets a counter that is already at its maximum and is lost.
  \<open>hits_max bk idxs\<close> says that this happens while the buckets \<open>idxs\<close> are incremented
  in turn; \<open>no_saturation c xs\<close> that it happens nowhere while the elements \<open>xs\<close>
  are added in turn.
\<close>

fun hits_max :: "Buckets \<Rightarrow> uint list \<Rightarrow> bool" where
  "hits_max bk [] = False"
| "hits_max bk (idx # idxs) =
     (maxValue bk \<le> counters bk ! unat idx \<or> hits_max (bump bk idx 1) idxs)"

fun no_saturation :: "CountingBloomFilter \<Rightarrow> byte list list \<Rightarrow> bool" where
  "no_saturation c [] = True"
| "no_saturation c (x # xs) =
     (\<not> hits_max (buckets c) (indexList c x) \<and>
      (case Add c x of Inl e \<Rightarrow> True | Inr c1 \<Rightarrow> no_saturation c1 xs))"

text \<open>
  Counting calls. \<open>claimed_count\<close> is the number of \<open>Add\<close> and \<open>TestAndAdd\<close> calls
  minus the number of \<open>TestAndRemove\<close> calls that returned true; \<open>net_count\<close>
  counts the same way but starts again from zero at every \<open>Reset\<close>.
\<close>

fun claimed_count :: "(op \<times> outcome) list \<Rightarrow> int" where
  "claimed_count [] = 0"
| "claimed_count ((OpAdd data, r) # xs) = claimed_count xs + 1"
| "claimed_count ((OpTestAndAdd data, r) # xs) = claimed_count xs + 1"
| "claimed_count ((OpTestAndRemove data, RetBool True) # xs) = claimed_count xs - 1"
| "claimed_count (x # xs) = claimed_count xs"

fun net_count :: "int \<Rightarrow> (op \<times> outcome) list \<Rightarrow> int" where
  "net_count n [] = n"
| "net_count n ((OpAdd data, r) # xs) = net_count (n + 1) xs"
| "net_count n ((OpTestAndAdd data, r) # xs) = net_count (n + 1) xs"
| "net_count n ((OpTestAndRemove data, RetBool True) # xs) = net_count (n - 1) xs"
| "net_count n ((OpReset, r) # xs) = net_count 0 xs"
| "net_count n (x # xs) = net_count n xs"

section \<open>Concrete filters\<close>

text \<open>
  What a sequence of calls shows from outside: the results, the counters and the
  count at the end.
\<close>

definition observe ::
  "CountingBloomFilter \<Rightarrow> op list \<Rightarrow> error + (outcome list \<times> nat list \<times> uint)" where
  "observe c ops =
     (case run c ops of
        Inl e \<Rightarrow> Inl e
      | Inr (outs, c1) \<Rightarrow> Inr (outs, counters (buckets c1), Count c1))"

text \<open>
  Fresh filters with four buckets and two rounds, with four-bit (\<open>small_filter\<close>) and
  with one-bit counters (\<open>tight_filter\<close>); \<open>small_filter\<close> after the bytes \<open>ad\<close>
  were added (\<open>used_filter\<close>); and the fresh filter of capacity zero, with no bucket
  and seven rounds (\<open>empty_filter\<close>).
\<close>

definition small_filter :: CountingBloomFilter where
  "small_filter =
     \<lparr>buckets = \<lparr>bucketWidth = 4, counters = [0, 0, 0, 0]\<rparr>, hash = fnv_New64,
      m = 4, k = 2, b = 4, count = 0, indexBuffer = [0, 0]\<rparr>"

definition tight_filter :: CountingBloomFilter where
  "tight_filter =
     \<lparr>buckets = \<lparr>bucketWidth = 1, counters = [0, 0, 0, 0]\<rparr>, hash = fnv_New64,
      m = 4, k = 2, b = 1, count = 0, indexBuffer = [0, 0]\<rparr>"

definition used_filter :: CountingBloomFilter where
  "used_filter =
     \<lparr>buckets = \<lparr>bucketWidth = 4, counters = [0, 1, 1, 0]\<rparr>, hash = fnv_New64,
      m = 4, k = 2, b = 4, count = 1, indexBuffer = [0, 0]\<rparr>"

definition empty_filter :: CountingBloomFilter where
  "empty_filter =
     \<lparr>buckets = \<lparr>bucketWidth = 4, counters = []\<rparr>, hash = fnv_New64,
      m = 0, k = 7, b = 4, count = 0, indexBuffer = [0, 0, 0, 0, 0, 0, 0]\<rparr>"

section \<open>Properties of the model\<close>

subsection \<open>The hash kernel\<close>

lemma be_low:
  "BigEndian_Uint32
     [ucast (drop_bit 24 d), ucast (drop_bit 16 d), ucast (drop_bit 8 d), ucast (d :: 64 word)]
   = ucast d"
  unfolding BigEndian_Uint32_def
  apply (rule bit_word_eqI)
  subgoal for n
    apply (cases "n < 8"; cases "n < 16"; cases "n < 24")
    apply (auto simp add: bit_simps)
    done
  done

lemma hash_Sum_low:
  "BigEndian_Uint32 (take 4 (drop 4 (hash_Sum h))) = ucast (sum64 h (written h))"
  using be_low [of "sum64 h (written h)"] by (simp add: hash_Sum_def Let_def)

lemma hash_Sum_high:
  "BigEndian_Uint32 (take 4 (hash_Sum h)) = ucast (drop_bit 32 (sum64 h (written h)))"
  using be_low [of "drop_bit 32 (sum64 h (written h))"] by (simp add: hash_Sum_def Let_def)

lemma hashKernel_eq:
  "hashKernel c data =
     ((ucast (sum64 (hash c) (written (hash c) @ data)),
       ucast (drop_bit 32 (sum64 (hash c) (written (hash c) @ data)))),
      c\<lparr>hash := hash_Reset (hash c)\<rparr>)"
  by (simp add: hashKernel_def Let_def hash_Sum_low hash_Sum_high hash_Write_def hash_Reset_def)

lemma hash_Reset_idle: "written h = [] \<Longrightarrow> hash_Reset h = h"
  by (cases h) (simp add: hash_Reset_def)

lemma hashKernel_invar:
  "invar c \<Longrightarrow> hashKernel c data =
     ((ucast (sum64 (hash c) data), ucast (drop_bit 32 (sum64 (hash c) data))), c)"
  by (simp add: hashKernel_eq invar_def hash_Reset_idle)

subsection \<open>Buckets\<close>

lemma bucketCount_bump [simp]: "bucketCount (bump bk idx d) = bucketCount bk"
  by (simp add: bump_def bucketCount_def)

lemma maxValue_bump [simp]: "maxValue (bump bk idx d) = maxValue bk"
  by (simp add: bump_def maxValue_def)

lemma Increment_bump:
  "unat idx < bucketCount bk \<Longrightarrow> Increment bk idx d = Inr (bump bk idx d)"
  by (simp add: Increment_def bump_def)

lemma Get_nth:
  "unat idx < bucketCount bk \<Longrightarrow> Get bk idx = Inr (counters bk ! unat idx)"
  by (simp add: Get_def)

lemma bucketCount_bump_all [simp]: "bucketCount (bump_all d bk idxs) = bucketCount bk"
  by (induction idxs arbitrary: bk) simp_all

lemma maxValue_bump_all [simp]: "maxValue (bump_all d bk idxs) = maxValue bk"
  by (induction idxs arbitrary: bk) simp_all

subsection \<open>The rounds of a loop\<close>

lemma unat_inc: "(i :: uint) < n \<Longrightarrow> unat (i + 1) = Suc (unat i)"
  by unat_arith

lemma rounds_step:
  "i < k c \<Longrightarrow>
   rounds c lower upper (unat i) =
     (ucast lower + ucast upper * i) mod m c # rounds c lower upper (unat (i + 1))"
  by (simp add: rounds_def bucketIndex_def unat_inc upt_conv_Cons word_less_nat_alt)

lemma rounds_done: "\<not> i < k c \<Longrightarrow> rounds c lower upper (unat i) = []"
  by (simp add: rounds_def word_less_nat_alt)

lemma rounds_buckets [simp]: "rounds (c\<lparr>buckets := bk\<rparr>) = rounds c"
  by (simp add: rounds_def fun_eq_iff)

lemma rounds_indexBuffer [simp]: "rounds (c\<lparr>indexBuffer := buf\<rparr>) = rounds c"
  by (simp add: rounds_def fun_eq_iff)

lemma index_in_range:
  "mm \<noteq> 0 \<Longrightarrow> n = unat mm \<Longrightarrow> unat ((x :: uint) mod mm) < n"
  by (simp add: unat_mod_distrib unat_gt_0)

lemma rounds_in_range:
  "m c \<noteq> 0 \<Longrightarrow> idx \<in> set (rounds c lower upper i) \<Longrightarrow> unat idx < unat (m c)"
  by (auto simp: rounds_def bucketIndex_def index_in_range)

subsection \<open>Closed forms of the loops\<close>

lemma Test_loop_closed:
  assumes "m c \<noteq> 0" and "bucketCount (buckets c) = unat (m c)"
  shows "Test_loop c lower upper i =
           Inr (list_all (nonzero (buckets c)) (rounds c lower upper (unat i)))"
  using assms
proof (induction c lower upper i rule: Test_loop.induct)
  case (1 c lower upper i)
  show ?case
  proof (cases "i < k c")
    case True
    let ?idx = "(ucast lower + ucast upper * i) mod m c"
    have get: "Get (buckets c) ?idx = Inr (counters (buckets c) ! unat ?idx)"
      using "1.prems" by (simp add: Get_nth index_in_range)
    show ?thesis
    proof (cases "counters (buckets c) ! unat ?idx = 0")
      case z: True
      then show ?thesis
        using True "1.prems" get
        by (subst Test_loop.simps) (simp add: rounds_step nonzero_def)
    next
      case nz: False
      have "Test_loop c lower upper (i + 1) =
              Inr (list_all (nonzero (buckets c)) (rounds c lower upper (unat (i + 1))))"
        using "1.IH" [OF True _ get nz] "1.prems" by simp
      then show ?thesis
        using True "1.prems" get nz
        by (subst Test_loop.simps) (simp add: rounds_step nonzero_def)
    qed
  next
    case False
    then show ?thesis
      by (subst Test_loop.simps) (simp add: rounds_done)
  qed
qed

lemma Add_loop_closed:
  assumes "m c \<noteq> 0" and "bucketCount (buckets c) = unat (m c)"
  shows "Add_loop c lower upper i =
           Inr (c\<lparr>buckets := bump_all 1 (buckets c) (rounds c lower upper (unat i))\<rparr>)"
  using assms
proof (induction c lower upper i rule: Add_loop.induct)
  case (1 c lower upper i)
  show ?case
  proof (cases "i < k c")
    case True
    let ?idx = "(ucast lower + ucast upper * i) mod m c"
    have inc: "Increment (buckets c) ?idx 1 = Inr (bump (buckets c) ?idx 1)"
      using "1.prems" by (simp add: Increment_bump index_in_range)
    have "Add_loop (c\<lparr>buckets := bump (buckets c) ?idx 1\<rparr>) lower upper (i + 1) =
            Inr (c\<lparr>buckets := bump_all 1 (bump (buckets c) ?idx 1)
                                  (rounds c lower upper (unat (i + 1)))\<rparr>)"
      using "1.IH" [OF True _ inc] "1.prems" by simp
    then show ?thesis
      using True "1.prems" inc
      by (subst Add_loop.simps) (simp add: rounds_step)
  next
    case False
    then show ?thesis
      by (subst Add_loop.simps) (simp add: rounds_done)
  qed
qed

lemma TestAndAdd_loop_closed:
  assumes "m c \<noteq> 0" and "bucketCount (buckets c) = unat (m c)"
  shows "TestAndAdd_loop c lower upper member i =
           Inr (test_bump (buckets c) (rounds c lower upper (unat i)) member,
                c\<lparr>buckets := bump_all 1 (buckets c) (rounds c lower upper (unat i))\<rparr>)"
  using assms
proof (induction c lower upper member i rule: TestAndAdd_loop.induct)
  case (1 c lower upper member i)
  show ?case
  proof (cases "i < k c")
    case True
    let ?idx = "(ucast lower + ucast upper * i) mod m c"
    let ?v = "counters (buckets c) ! unat ?idx"
    have get: "Get (buckets c) ?idx = Inr ?v"
      using "1.prems" by (simp add: Get_nth index_in_range)
    have inc: "Increment (buckets c) ?idx 1 = Inr (bump (buckets c) ?idx 1)"
      using "1.prems" by (simp add: Increment_bump index_in_range)
    have "TestAndAdd_loop (c\<lparr>buckets := bump (buckets c) ?idx 1\<rparr>) lower upper
            (if ?v = 0 then False else member) (i + 1) =
          Inr (test_bump (bump (buckets c) ?idx 1) (rounds c lower upper (unat (i + 1)))
                 (if ?v = 0 then False else member),
               c\<lparr>buckets := bump_all 1 (bump (buckets c) ?idx 1)
                                 (rounds c lower upper (unat (i + 1)))\<rparr>)"
      using "1.IH" [OF True _ refl get inc] "1.prems" by simp
    then show ?thesis
      using True "1.prems" get inc
      by (subst TestAndAdd_loop.simps) (simp add: rounds_step Let_def nonzero_def)
  next
    case False
    then show ?thesis
      by (subst TestAndAdd_loop.simps) (simp add: rounds_done)
  qed
qed

lemma TestAndRemove_loop_closed:
  assumes "m c \<noteq> 0" and "bucketCount (buckets c) = unat (m c)"
    and "length (indexBuffer c) = unat (k c)"
  shows "TestAndRemove_loop c lower upper member i =
           Inr (member \<and> list_all (nonzero (buckets c)) (rounds c lower upper (unat i)),
                c\<lparr>indexBuffer := take (unat i) (indexBuffer c) @ rounds c lower upper (unat i)\<rparr>)"
  using assms
proof (induction c lower upper member i rule: TestAndRemove_loop.induct)
  case (1 c lower upper member i)
  show ?case
  proof (cases "i < k c")
    case True
    let ?idx = "(ucast lower + ucast upper * i) mod m c"
    let ?v = "counters (buckets c) ! unat ?idx"
    let ?c1 = "c\<lparr>indexBuffer := (indexBuffer c)[unat i := ?idx]\<rparr>"
    have len: "unat i < length (indexBuffer c)"
      using True "1.prems" by (simp add: word_less_nat_alt)
    have get: "Get (buckets ?c1) (indexBuffer ?c1 ! unat i) = Inr ?v"
      using "1.prems" len by (simp add: Get_nth index_in_range)
    have "TestAndRemove_loop ?c1 lower upper (if ?v = 0 then False else member) (i + 1) =
          Inr ((if ?v = 0 then False else member) \<and>
                 list_all (nonzero (buckets ?c1)) (rounds ?c1 lower upper (unat (i + 1))),
               ?c1\<lparr>indexBuffer := take (unat (i + 1)) (indexBuffer ?c1) @
                                     rounds ?c1 lower upper (unat (i + 1))\<rparr>)"
      using "1.IH" [OF True _ _ refl get] "1.prems" len by simp
    moreover have "take (unat (i + 1)) (indexBuffer ?c1) = take (unat i) (indexBuffer c) @ [?idx]"
      using len True by (simp add: unat_inc take_Suc_conv_app_nth)
    ultimately show ?thesis
      using True "1.prems" len get
      by (subst TestAndRemove_loop.simps) (auto simp add: rounds_step Let_def nonzero_def)
  next
    case False
    then have "unat (k c) \<le> unat i" by (simp add: word_less_nat_alt)
    then have "take (unat i) (indexBuffer c) = indexBuffer c"
      using "1.prems" by simp
    with False show ?thesis
      by (subst TestAndRemove_loop.simps) (simp add: rounds_done)
  qed
qed

lemma decrement_all_closed:
  "list_all (\<lambda>idx. unat idx < bucketCount bk) idxs \<Longrightarrow>
   decrement_all bk idxs = Inr (bump_all (- 1) bk idxs)"
  by (induction idxs arbitrary: bk) (simp_all add: Increment_bump)

subsection \<open>Counters under a series of increments\<close>

lemma in_range_simps [simp]:
  "in_range bk []"
  "in_range bk (idx # idxs) \<longleftrightarrow> unat idx < bucketCount bk \<and> in_range bk idxs"
  "in_range (bump bk a d) idxs = in_range bk idxs"
  by (simp_all add: in_range_def)

lemma bucketWidth_bump [simp]: "bucketWidth (bump bk idx d) = bucketWidth bk"
  by (simp add: bump_def)

lemma bucketWidth_bump_all [simp]: "bucketWidth (bump_all d bk idxs) = bucketWidth bk"
  by (induction idxs arbitrary: bk) simp_all

lemma nth_bump:
  "j < bucketCount bk \<Longrightarrow>
   counters (bump bk idx d) ! j =
     (if j = unat idx then clamp (maxValue bk) (int (counters bk ! j) + d) else counters bk ! j)"
  by (simp add: bump_def bucketCount_def)

lemma clamp_le: "clamp mx x \<le> mx"
  by (auto simp add: clamp_def nat_le_iff)

lemma clamp_inc: "v < mx \<Longrightarrow> clamp mx (int v + 1) = v + 1"
  by (simp add: clamp_def)

lemma clamp_dec: "v \<le> mx \<Longrightarrow> clamp mx (int v - 1) = v - 1"
  by (auto simp add: clamp_def)

lemma clamp_pos: "0 < mx \<Longrightarrow> 0 < clamp mx (int v + 1)"
  by (simp add: clamp_def)

lemma bounded_bump: "bounded bk \<Longrightarrow> bounded (bump bk idx d)"
  unfolding bounded_def list_all_iff
  by (auto simp add: bump_def maxValue_def clamp_le dest!: set_update_subset_insert [THEN subsetD])

lemma bounded_bump_all: "bounded bk \<Longrightarrow> bounded (bump_all d bk idxs)"
  by (induction idxs arbitrary: bk) (simp_all add: bounded_bump)

lemma bounded_nth: "bounded bk \<Longrightarrow> j < bucketCount bk \<Longrightarrow> counters bk ! j \<le> maxValue bk"
  by (simp add: bounded_def list_all_length bucketCount_def)

lemma nonzero_bump:
  assumes "bounded bk" and "unat a < bucketCount bk" and "unat idx < bucketCount bk"
    and "nonzero bk a"
  shows "nonzero (bump bk a 1) idx \<longleftrightarrow> nonzero bk idx"
proof (cases "unat idx = unat a")
  case True
  from assms have "0 < maxValue bk"
    using bounded_nth [of bk "unat a"] by (simp add: nonzero_def)
  with True assms show ?thesis
    using clamp_pos [of "maxValue bk" "counters bk ! unat a"]
    by (simp add: nonzero_def nth_bump)
next
  case False
  with assms show ?thesis by (simp add: nonzero_def nth_bump)
qed

lemma test_bump_False: "test_bump bk idxs False = False"
  by (induction idxs arbitrary: bk) simp_all

lemma test_bump_eq:
  "bounded bk \<Longrightarrow> in_range bk idxs \<Longrightarrow>
   test_bump bk idxs member = (member \<and> list_all (nonzero bk) idxs)"
proof (induction idxs arbitrary: bk member)
  case Nil
  then show ?case by simp
next
  case (Cons a idxs)
  show ?case
  proof (cases "nonzero bk a")
    case True
    have "list_all (nonzero (bump bk a 1)) idxs = list_all (nonzero bk) idxs"
      using Cons.prems True
      by (auto simp add: list_all_iff in_range_def nonzero_bump)
    with Cons True show ?thesis
      by (simp add: bounded_bump) (simp add: nonzero_def)
  next
    case False
    then show ?thesis by (simp add: nonzero_def test_bump_False)
  qed
qed

lemma nonzero_bump_mono:
  assumes "0 < maxValue bk" and "idx = a \<or> nonzero bk idx" and "unat idx < bucketCount bk"
  shows "nonzero (bump bk a 1) idx"
  using assms clamp_pos [of "maxValue bk" "counters bk ! unat idx"]
  by (auto simp add: nonzero_def nth_bump)

lemma nonzero_bump_all:
  "0 < maxValue bk \<Longrightarrow> unat idx < bucketCount bk \<Longrightarrow> idx \<in> set idxs \<or> nonzero bk idx \<Longrightarrow>
   nonzero (bump_all 1 bk idxs) idx"
proof (induction idxs arbitrary: bk)
  case Nil
  then show ?case by simp
next
  case (Cons a idxs)
  show ?case
  proof (cases "idx = a \<or> nonzero bk idx")
    case True
    with Cons.prems have "nonzero (bump bk a 1) idx"
      by (intro nonzero_bump_mono) auto
    with Cons show ?thesis by simp
  next
    case False
    with Cons.prems have "idx \<in> set idxs" by auto
    with Cons show ?thesis by simp
  qed
qed

lemma nth_bump_all_inc:
  "\<not> hits_max bk idxs \<Longrightarrow> in_range bk idxs \<Longrightarrow> j < bucketCount bk \<Longrightarrow>
   counters (bump_all 1 bk idxs) ! j = counters bk ! j + count_list (map unat idxs) j"
proof (induction idxs arbitrary: bk)
  case Nil
  then show ?case by simp
next
  case (Cons a idxs)
  from Cons.prems have lt: "counters bk ! unat a < maxValue bk" by simp
  have "counters (bump_all 1 (bump bk a 1) idxs) ! j =
          counters (bump bk a 1) ! j + count_list (map unat idxs) j"
    using Cons.prems by (intro Cons.IH) simp_all
  with Cons.prems lt show ?case
    by (auto simp add: nth_bump clamp_inc)
qed

lemma nth_bump_all_dec:
  "bounded bk \<Longrightarrow> in_range bk idxs \<Longrightarrow> j < bucketCount bk \<Longrightarrow>
   counters (bump_all (- 1) bk idxs) ! j = counters bk ! j - count_list (map unat idxs) j"
proof (induction idxs arbitrary: bk)
  case Nil
  then show ?case by simp
next
  case (Cons a idxs)
  have "counters (bump_all (- 1) (bump bk a (- 1)) idxs) ! j =
          counters (bump bk a (- 1)) ! j - count_list (map unat idxs) j"
    using Cons.prems by (intro Cons.IH) (simp_all add: bounded_bump)
  with Cons.prems show ?case
    by (auto simp add: nth_bump clamp_dec bounded_nth)
qed

lemma Buckets_eqI:
  "bucketWidth x = bucketWidth y \<Longrightarrow> counters x = counters y \<Longrightarrow> (x :: Buckets) = y"
  by simp

lemma length_counters_bump_all: "length (counters (bump_all d bk idxs)) = length (counters bk)"
  using bucketCount_bump_all [of d bk idxs] by (simp add: bucketCount_def)

lemma bump_all_inverse:
  assumes "\<not> hits_max bk idxs" and "bounded bk" and "in_range bk idxs"
  shows "bump_all (- 1) (bump_all 1 bk idxs) idxs = bk"
proof (rule Buckets_eqI)
  show "bucketWidth (bump_all (- 1) (bump_all 1 bk idxs) idxs) = bucketWidth bk" by simp
  show "counters (bump_all (- 1) (bump_all 1 bk idxs) idxs) = counters bk"
  proof (rule nth_equalityI)
    show "length (counters (bump_all (- 1) (bump_all 1 bk idxs) idxs)) = length (counters bk)"
      by (simp add: length_counters_bump_all)
  next
    fix j
    assume "j < length (counters (bump_all (- 1) (bump_all 1 bk idxs) idxs))"
    then have j: "j < bucketCount bk" by (simp add: length_counters_bump_all bucketCount_def)
    have "in_range (bump_all 1 bk idxs) idxs"
      using assms(3) by (simp add: in_range_def)
    then have "counters (bump_all (- 1) (bump_all 1 bk idxs) idxs) ! j =
            counters (bump_all 1 bk idxs) ! j - count_list (map unat idxs) j"
      using assms j by (intro nth_bump_all_dec) (simp_all add: bounded_bump_all)
    also have "\<dots> = counters bk ! j"
      using assms j by (simp add: nth_bump_all_inc)
    finally show "counters (bump_all (- 1) (bump_all 1 bk idxs) idxs) ! j = counters bk ! j" .
  qed
qed

lemma hits_max_pos: "\<not> hits_max bk idxs \<Longrightarrow> idxs \<noteq> [] \<Longrightarrow> 0 < maxValue bk"
  by (cases idxs) auto

subsection \<open>Closed forms of the operations\<close>

lemma length_rounds: "length (rounds c lower upper 0) = unat (k c)"
  by (simp add: rounds_def)

lemma length_indexList: "length (indexList c data) = unat (k c)"
  by (simp add: indexList_def Let_def length_rounds)

lemma in_range_rounds:
  "m c \<noteq> 0 \<Longrightarrow> bucketCount bk = unat (m c) \<Longrightarrow> in_range bk (rounds c lower upper i)"
  by (auto simp add: in_range_def list_all_iff dest: rounds_in_range)

lemma in_range_indexList:
  "m c \<noteq> 0 \<Longrightarrow> bucketCount bk = unat (m c) \<Longrightarrow> in_range bk (indexList c data)"
  by (simp add: indexList_def Let_def in_range_rounds)

lemma in_range_bump_all [simp]: "in_range (bump_all d bk idxs) js = in_range bk js"
  by (simp add: in_range_def)

lemma Test_closed:
  assumes "invar c" and "m c \<noteq> 0"
  shows "Test c data = Inr (list_all (nonzero (buckets c)) (indexList c data), c)"
  using assms
  by (simp add: Test_def hashKernel_invar Test_loop_closed invar_def indexList_def Let_def)

lemma Add_closed:
  assumes "invar c" and "m c \<noteq> 0"
  shows "Add c data =
           Inr (c\<lparr>buckets := bump_all 1 (buckets c) (indexList c data),
                  count := count c + 1\<rparr>)"
  using assms
  by (simp add: Add_def hashKernel_invar Add_loop_closed invar_def indexList_def Let_def)

lemma TestAndAdd_closed:
  assumes "invar c" and "m c \<noteq> 0"
  shows "TestAndAdd c data =
           Inr (list_all (nonzero (buckets c)) (indexList c data),
                c\<lparr>buckets := bump_all 1 (buckets c) (indexList c data),
                  count := count c + 1\<rparr>)"
proof -
  have "in_range (buckets c) (rounds c lower upper 0)" for lower upper
    using assms by (simp add: in_range_rounds invar_def)
  with assms show ?thesis
    by (simp add: TestAndAdd_def hashKernel_invar TestAndAdd_loop_closed invar_def indexList_def
        Let_def test_bump_eq)
qed

lemma TestAndRemove_closed:
  assumes "invar c" and "m c \<noteq> 0"
  shows "TestAndRemove c data =
           Inr (if list_all (nonzero (buckets c)) (indexList c data)
                then (True, c\<lparr>indexBuffer := indexList c data,
                              buckets := bump_all (- 1) (buckets c) (indexList c data),
                              count := count c - 1\<rparr>)
                else (False, c\<lparr>indexBuffer := indexList c data\<rparr>))"
proof -
  have "decrement_all (buckets c) (rounds c lower upper 0) =
          Inr (bump_all (- 1) (buckets c) (rounds c lower upper 0))" for lower upper
    using assms in_range_rounds [of c "buckets c" lower upper 0]
    by (simp add: decrement_all_closed invar_def in_range_def)
  with assms show ?thesis
    by (simp add: TestAndRemove_def hashKernel_invar TestAndRemove_loop_closed invar_def
        indexList_def Let_def)
qed

subsection \<open>The invariant is kept\<close>

text \<open>
  The constructor establishes the invariant and every operation that returns keeps it
  (\<open>invar_New\<close>, \<open>invar_step\<close> and \<open>invar_run\<close> below): it holds in every state a caller
  can reach.
\<close>

lemma invar_New:
  "NewCountingBloomFilter maxLen OptimalM OptimalK n bits fpRate = Inr c \<Longrightarrow> invar c"
  by (auto simp add: NewCountingBloomFilter_def make_uints_def Let_def invar_def fnv_New64_def
      NewBuckets_def bucketCount_def bounded_def list_all_iff split: if_splits)

lemma New_len_out_of_range:
  "maxLen < unat (OptimalK fpRate) \<Longrightarrow>
   NewCountingBloomFilter maxLen OptimalM OptimalK n bits fpRate = Inl LenOutOfRange"
  by (simp add: NewCountingBloomFilter_def make_uints_def Let_def)

lemma invar_bump_all:
  "invar c \<Longrightarrow> invar (c\<lparr>buckets := bump_all d (buckets c) idxs\<rparr>)"
  by (simp add: invar_def bounded_bump_all)

lemma invar_count [simp]: "invar (c\<lparr>count := n\<rparr>) = invar c"
  by (simp add: invar_def)

lemma invar_indexBuffer:
  "invar c \<Longrightarrow> length buf = unat (k c) \<Longrightarrow> invar (c\<lparr>indexBuffer := buf\<rparr>)"
  by (simp add: invar_def)

lemma invar_Reset: "invar c \<Longrightarrow> invar (Reset c)"
  by (simp add: invar_def Reset_def Buckets_Reset_def bucketCount_def bounded_def list_all_iff
      maxValue_def)

lemma invar_Add: "invar c \<Longrightarrow> Add c data = Inr c1 \<Longrightarrow> invar c1"
proof (cases "m c = 0")
  case False
  assume "invar c" "Add c data = Inr c1"
  with False show ?thesis
    by (auto simp add: Add_closed invar_bump_all)
next
  case True
  assume i: "invar c" and a: "Add c data = Inr c1"
  show ?thesis
  proof (cases "0 < k c")
    case k: True
    with True i a show ?thesis
      by (simp add: Add_def hashKernel_invar Add_loop.simps [of _ _ _ 0])
  next
    case False
    with True i a show ?thesis
      by (auto simp add: Add_def hashKernel_invar Add_loop.simps [of _ _ _ 0])
  qed
qed

subsection \<open>What the loops leave alone\<close>

lemma TestAndRemove_loop_frame:
  "TestAndRemove_loop c lower upper member i = Inr (r, c') \<Longrightarrow>
   buckets c' = buckets c \<and> count c' = count c"
proof (induction c lower upper member i rule: TestAndRemove_loop.induct)
  case (1 c lower upper member i)
  from "1.prems" show ?case
    by (subst (asm) TestAndRemove_loop.simps)
       (auto simp add: Let_def split: if_splits sum.splits dest!: "1.IH" [OF _ _ _ refl])
qed

lemma Add_loop_frame:
  "Add_loop c lower upper i = Inr c' \<Longrightarrow> count c' = count c"
proof (induction c lower upper i rule: Add_loop.induct)
  case (1 c lower upper i)
  from "1.prems" show ?case
    by (subst (asm) Add_loop.simps)
       (auto split: if_splits sum.splits dest!: "1.IH")
qed

lemma TestAndAdd_loop_frame:
  "TestAndAdd_loop c lower upper member i = Inr (r, c') \<Longrightarrow> count c' = count c"
proof (induction c lower upper member i rule: TestAndAdd_loop.induct)
  case (1 c lower upper member i)
  from "1.prems" show ?case
    by (subst (asm) TestAndAdd_loop.simps)
       (auto simp add: Let_def split: if_splits sum.splits dest!: "1.IH" [OF _ _ refl])
qed

lemma count_Add: "Add c data = Inr c' \<Longrightarrow> count c' = count c + 1"
  by (auto simp add: Add_def hashKernel_eq split: sum.splits dest!: Add_loop_frame)

lemma count_TestAndAdd: "TestAndAdd c data = Inr (r, c') \<Longrightarrow> count c' = count c + 1"
  by (auto simp add: TestAndAdd_def hashKernel_eq split: sum.splits dest!: TestAndAdd_loop_frame)

lemma count_Test: "Test c data = Inr (r, c') \<Longrightarrow> count c' = count c"
  by (auto simp add: Test_def hashKernel_eq split: sum.splits)

lemma count_TestAndRemove:
  "TestAndRemove c data = Inr (r, c') \<Longrightarrow> count c' = (if r then count c - 1 else count c)"
  by (auto simp add: TestAndRemove_def hashKernel_eq split: sum.splits if_splits
      dest!: TestAndRemove_loop_frame)

subsection \<open>Degenerate sizes\<close>

lemma loops_no_rounds:
  assumes "k c = 0"
  shows "Test_loop c lower upper 0 = Inr True"
    and "Add_loop c lower upper 0 = Inr c"
    and "TestAndAdd_loop c lower upper member 0 = Inr (member, c)"
    and "TestAndRemove_loop c lower upper member 0 = Inr (member, c)"
  using assms
  by (simp_all add: Test_loop.simps [of _ _ _ 0] Add_loop.simps [of _ _ _ 0]
      TestAndAdd_loop.simps [of _ _ _ _ 0] TestAndRemove_loop.simps [of _ _ _ _ 0])

lemma loops_no_buckets:
  assumes "m c = 0" and "k c \<noteq> 0"
  shows "Test_loop c lower upper 0 = Inl DivideByZero"
    and "Add_loop c lower upper 0 = Inl DivideByZero"
    and "TestAndAdd_loop c lower upper member 0 = Inl DivideByZero"
    and "TestAndRemove_loop c lower upper member 0 = Inl DivideByZero"
  using assms
  by (simp_all add: Test_loop.simps [of _ _ _ 0] Add_loop.simps [of _ _ _ 0]
      TestAndAdd_loop.simps [of _ _ _ _ 0] TestAndRemove_loop.simps [of _ _ _ _ 0] word_gt_0)

lemma TestAndAdd_sequential:
  assumes "invar c"
  shows "TestAndAdd c data = Test_then_Add c data"
proof (cases "m c = 0")
  case False
  with assms show ?thesis
    by (simp add: Test_then_Add_def Test_closed Add_closed TestAndAdd_closed)
next
  case True
  show ?thesis
  proof (cases "k c = 0")
    case k0: True
    with assms show ?thesis
      by (simp add: Test_then_Add_def Test_def Add_def TestAndAdd_def hashKernel_invar
          loops_no_rounds)
  next
    case False
    with True assms show ?thesis
      by (simp add: Test_then_Add_def Test_def Add_def TestAndAdd_def hashKernel_invar
          loops_no_buckets)
  qed
qed

subsection \<open>Membership after additions\<close>

lemma indexList_frame [simp]:
  "indexList (c\<lparr>buckets := bk\<rparr>) = indexList c"
  "indexList (c\<lparr>count := n\<rparr>) = indexList c"
  "indexList (c\<lparr>indexBuffer := buf\<rparr>) = indexList c"
  by (simp_all add: indexList_def rounds_def fun_eq_iff)

lemma Add_member:
  assumes "invar c" and "m c \<noteq> 0" and "0 < maxValue (buckets c)"
    and "y = x \<or> list_all (nonzero (buckets c)) (indexList c x)"
  shows "\<exists>c1. Add c y = Inr c1 \<and> invar c1 \<and> m c1 = m c \<and>
           maxValue (buckets c1) = maxValue (buckets c) \<and>
           list_all (nonzero (buckets c1)) (indexList c1 x)"
proof -
  let ?c1 = "c\<lparr>buckets := bump_all 1 (buckets c) (indexList c y), count := count c + 1\<rparr>"
  have range: "in_range (buckets c) (indexList c x)"
    using assms by (simp add: in_range_indexList invar_def)
  have "nonzero (bump_all 1 (buckets c) (indexList c y)) idx" if "idx \<in> set (indexList c x)" for idx
  proof (rule nonzero_bump_all)
    show "0 < maxValue (buckets c)" by fact
    show "unat idx < bucketCount (buckets c)"
      using range that by (simp add: in_range_def list_all_iff)
    show "idx \<in> set (indexList c y) \<or> nonzero (buckets c) idx"
      using assms(4) that by (auto simp add: list_all_iff)
  qed
  then have "list_all (nonzero (buckets ?c1)) (indexList ?c1 x)"
    by (simp add: list_all_iff)
  moreover have "Add c y = Inr ?c1" using assms by (simp add: Add_closed)
  moreover have "invar ?c1" using assms by (simp add: invar_bump_all)
  ultimately show ?thesis by simp
qed

lemma add_all_member:
  assumes "invar c" and "m c \<noteq> 0" and "0 < maxValue (buckets c)"
    and "x \<in> set xs \<or> list_all (nonzero (buckets c)) (indexList c x)"
  shows "\<exists>c'. add_all c xs = Inr c' \<and> invar c' \<and> m c' = m c \<and>
           list_all (nonzero (buckets c')) (indexList c' x)"
  using assms
proof (induction xs arbitrary: c)
  case Nil
  then show ?case by simp
next
  case (Cons y ys)
  show ?case
  proof (cases "y = x \<or> list_all (nonzero (buckets c)) (indexList c x)")
    case True
    from Add_member [OF Cons.prems(1-3) True]
    obtain c1 where c1: "Add c y = Inr c1" "invar c1" "m c1 = m c"
      "maxValue (buckets c1) = maxValue (buckets c)"
      "list_all (nonzero (buckets c1)) (indexList c1 x)" by blast
    with Cons.prems have "\<exists>c'. add_all c1 ys = Inr c' \<and> invar c' \<and> m c' = m c1 \<and>
           list_all (nonzero (buckets c')) (indexList c' x)"
      by (intro Cons.IH) simp_all
    with c1 show ?thesis by auto
  next
    case False
    with Cons.prems have x: "x \<in> set ys" by auto
    from Add_member [OF Cons.prems(1-3), of y y]
    obtain c1 where c1: "Add c y = Inr c1" "invar c1" "m c1 = m c"
      "maxValue (buckets c1) = maxValue (buckets c)" by blast
    with Cons.prems x have "\<exists>c'. add_all c1 ys = Inr c' \<and> invar c' \<and> m c' = m c1 \<and>
           list_all (nonzero (buckets c')) (indexList c' x)"
      by (intro Cons.IH) simp_all
    with c1 show ?thesis by auto
  qed
qed

lemma add_all_no_rounds:
  assumes "invar c" and "k c = 0"
  shows "\<exists>c'. add_all c xs = Inr c' \<and> invar c' \<and> k c' = 0 \<and> m c' = m c"
  using assms
proof (induction xs arbitrary: c)
  case Nil
  then show ?case by simp
next
  case (Cons y ys)
  let ?c1 = "c\<lparr>count := count c + 1\<rparr>"
  have "Add c y = Inr ?c1"
    using Cons.prems by (simp add: Add_def hashKernel_invar loops_no_rounds)
  moreover have "\<exists>c'. add_all ?c1 ys = Inr c' \<and> invar c' \<and> k c' = 0 \<and> m c' = m ?c1"
    using Cons.prems by (intro Cons.IH) simp_all
  ultimately show ?case by simp
qed

lemma indexList_no_rounds: "k c = 0 \<Longrightarrow> indexList c x = []"
  by (simp add: indexList_def Let_def rounds_def)

lemma indexList_not_Nil: "k c \<noteq> 0 \<Longrightarrow> indexList c x \<noteq> []"
  by (simp add: indexList_def Let_def rounds_def unat_gt_0)

lemma no_saturation_pos:
  "no_saturation c xs \<Longrightarrow> xs \<noteq> [] \<Longrightarrow> k c \<noteq> 0 \<Longrightarrow> 0 < maxValue (buckets c)"
  by (cases xs) (auto dest: hits_max_pos indexList_not_Nil)

subsection \<open>Counting over a sequence of calls\<close>

lemma count_step:
  "step c x = Inr (r, c') \<Longrightarrow>
   count c' = word_of_int (net_count (uint (count c)) [(x, r)])"
  by (cases x)
     (auto simp add: Reset_def split: sum.splits 
       dest: count_Add count_Test count_TestAndAdd count_TestAndRemove)

lemma net_count_cong:
  "(word_of_int a :: uint) = word_of_int a' \<Longrightarrow>
   (word_of_int (net_count a xs) :: uint) = word_of_int (net_count a' xs)"
  by (induction a xs arbitrary: a' rule: net_count.induct) simp_all

lemma net_count_Cons: "net_count n (x # xs) = net_count (net_count n [x]) xs"
  by (cases "(n, [x])" rule: net_count.cases) simp_all

lemma count_run:
  "run c ops = Inr (outs, c') \<Longrightarrow>
   count c' = word_of_int (net_count (uint (count c)) (zip ops outs))"
proof (induction ops arbitrary: c outs)
  case Nil
  then show ?case by simp
next
  case (Cons x xs)
  from Cons.prems obtain r c1 rs where
    s: "step c x = Inr (r, c1)" and t: "run c1 xs = Inr (rs, c')" and o: "outs = r # rs"
    by (auto split: sum.splits)
  have "count c' = word_of_int (net_count (uint (count c1)) (zip xs rs))"
    using t by (rule Cons.IH)
  also have "\<dots> = word_of_int (net_count (net_count (uint (count c)) [(x, r)]) (zip xs rs))"
    using count_step [OF s] by (intro net_count_cong) simp
  also have "\<dots> = word_of_int (net_count (uint (count c)) (zip (x # xs) outs))"
    using o net_count_Cons [of "uint (count c)" "(x, r)" "zip xs rs"] by simp
  finally show ?case .
qed

lemma invar_Test: "invar c \<Longrightarrow> Test c data = Inr (r, c') \<Longrightarrow> c' = c"
  by (auto simp add: Test_def hashKernel_invar split: sum.splits)

lemma invar_TestAndAdd:
  assumes "invar c" and "TestAndAdd c data = Inr (r, c')"
  shows "invar c'"
proof -
  from assms have "Test_then_Add c data = Inr (r, c')"
    by (simp add: TestAndAdd_sequential)
  then obtain c1 where "Test c data = Inr (r, c1)" and "Add c1 data = Inr c'"
    by (auto simp add: Test_then_Add_def split: sum.splits)
  with assms(1) show ?thesis
    using invar_Test [of c data r c1] invar_Add [of c1 data c'] by simp
qed

lemma invar_TestAndRemove:
  assumes "invar c" and "TestAndRemove c data = Inr (r, c')"
  shows "invar c'"
proof (cases "m c = 0")
  case False
  with assms show ?thesis
    by (auto simp add: TestAndRemove_closed length_indexList invar_def bounded_bump_all
        split: if_splits)
next
  case True
  show ?thesis
  proof (cases "k c = 0")
    case k0: True
    with assms have "indexBuffer c = []" by (simp add: invar_def)
    with assms k0 show ?thesis
      by (auto simp add: TestAndRemove_def hashKernel_invar loops_no_rounds invar_def)
  next
    case False
    with True assms show ?thesis
      by (simp add: TestAndRemove_def hashKernel_invar loops_no_buckets)
  qed
qed

lemma invar_step: "invar c \<Longrightarrow> step c x = Inr (r, c') \<Longrightarrow> invar c'"
  by (cases x)
     (auto split: sum.splits
       dest: invar_Add invar_Test invar_TestAndAdd invar_TestAndRemove intro: invar_Reset)

lemma invar_run: "invar c \<Longrightarrow> run c ops = Inr (outs, c') \<Longrightarrow> invar c'"
proof (induction ops arbitrary: c outs)
  case Nil
  then show ?case by simp
next
  case (Cons x xs)
  from Cons.prems obtain r c1 rs where
    s: "step c x = Inr (r, c1)" and t: "run c1 xs = Inr (rs, c')"
    by (auto split: sum.splits)
  from Cons.prems(1) s have "invar c1" by (rule invar_step)
  then show ?case using t by (rule Cons.IH)
qed

lemma Test_after_Reset:
  assumes "m c \<noteq> 0" and "k c \<noteq> 0" and "bucketCount (buckets c) = unat (m c)"
  shows "\<exists>c'. Test (Reset c) data = Inr (False, c')"
proof -
  have "Get (Buckets_Reset (buckets c)) (x mod m c) = Inr 0" for x
    using assms by (simp add: Get_def Buckets_Reset_def bucketCount_def index_in_range)
  with assms show ?thesis
    by (simp add: Test_def hashKernel_eq Reset_def Test_loop.simps [of _ _ _ 0] word_gt_0)
qed

lemma observeD:
  "observe c ops = Inr (outs, cs, n) \<Longrightarrow>
   \<exists>c1. run c ops = Inr (outs, c1) \<and> counters (buckets c1) = cs \<and> Count c1 = n"
  by (auto simp add: observe_def split: sum.splits)

subsection \<open>The index formula without wrap-around\<close>

lemma bucketIndex_exact:
  assumes "i < 2 ^ 32"
  shows "unat (bucketIndex lower upper mm i) = (unat lower + unat upper * i) mod unat mm"
proof -
  have lb: "unat lower < 2 ^ 32" using unsigned_less [of lower] by simp
  have ub: "unat upper < 2 ^ 32" using unsigned_less [of upper] by simp
  have "unat lower < 2 ^ 64" using lb by simp
  then have l: "unat (ucast lower :: uint) = unat lower"
    by (simp add: unsigned_ucast_eq take_bit_nat_eq_self)
  have "unat upper < 2 ^ 64" using ub by simp
  then have u: "unat (ucast upper :: uint) = unat upper"
    by (simp add: unsigned_ucast_eq take_bit_nat_eq_self)
  have "i < 2 ^ 64" using assms by simp
  then have i: "unat (of_nat i :: uint) = i"
    by (simp add: unat_of_nat)
  have "unat upper * i \<le> (2 ^ 32 - 1) * (2 ^ 32 - 1)"
    using ub assms by (intro mult_mono) simp_all
  then have p: "unat upper * i \<le> 18446744065119617025" by simp
  then have "unat (ucast upper :: uint) * unat (of_nat i :: uint) < 2 ^ LENGTH(64)"
    by (simp add: u i)
  then have m: "unat (ucast upper * of_nat i :: uint) = unat upper * i"
    by (simp add: unat_mult_lem [THEN iffD1] u i)
  have "unat (ucast lower :: uint) + unat (ucast upper * of_nat i :: uint) < 2 ^ LENGTH(64)"
    using lb p by (simp add: l m)
  then have "unat (ucast lower + ucast upper * of_nat i :: uint) = unat lower + unat upper * i"
    by (simp add: unat_add_lem [THEN iffD1] l m)
  then show ?thesis
    by (simp add: bucketIndex_def unat_mod_distrib)
qed

subsection \<open>Facts about the concrete filters\<close>

lemma replicate_numeral: "replicate (numeral n) x = x # replicate (pred_numeral n) x"
  by (simp add: numeral_eq_Suc)

lemma small_fresh:
  "NewCountingBloomFilter (2 ^ 45) (\<lambda>n p. 4 * n) (\<lambda>p. 2) 1 4 (1 / 4 :: real) = Inr small_filter"
  by (simp add: NewCountingBloomFilter_def make_uints_def small_filter_def NewBuckets_def
      replicate_numeral)

lemma tight_fresh:
  "NewCountingBloomFilter (2 ^ 45) (\<lambda>n p. 4 * n) (\<lambda>p. 2) 1 1 (1 / 4 :: real) = Inr tight_filter"
  by (simp add: NewCountingBloomFilter_def make_uints_def tight_filter_def NewBuckets_def
      replicate_numeral)

lemma empty_fresh:
  "NewDefaultCountingBloomFilter (2 ^ 45) (\<lambda>n p. 10 * n) (\<lambda>p. 7) 0 (1 / 100 :: real) = Inr empty_filter"
  by (simp add: NewDefaultCountingBloomFilter_def NewCountingBloomFilter_def make_uints_def
      empty_filter_def NewBuckets_def replicate_numeral)

lemma small_invar: "invar small_filter"
  by code_simp

lemma small_m: "m small_filter \<noteq> 0"
  by code_simp

lemma used_invar: "invar used_filter"
  by code_simp

lemma used_m: "m used_filter \<noteq> 0"
  by code_simp

lemma small_indexList_a: "indexList small_filter [97] = [2, 2]"
  by code_simp

lemma small_indexList_ad: "indexList small_filter [97, 100] = [2, 1]"
  by code_simp

lemma tight_indexList_ad: "indexList tight_filter [97, 100] = [2, 1]"
  by code_simp

lemma small_indexList_b: "indexList small_filter [98] = [1, 1]"
  by code_simp

text \<open>
  The digests of the empty input and of \<open>a\<close>, \<open>ab\<close> and \<open>abc\<close> are the published FNV-1
  values \<open>cbf29ce484222325\<close>, \<open>af63bd4c8601b7be\<close>, \<open>08326707b4eb37b8\<close> and
  \<open>d8dcca186bafadcb\<close>.
\<close>

lemma fnv1_64_vectors:
  "fnv1_64 [] = 14695981039346656037 \<and>
   fnv1_64 [97] = 12638153115695167422 \<and>
   fnv1_64 [97, 98] = 590647783936702392 \<and>
   fnv1_64 [97, 98, 99] = 15626587013303479755"
  by code_simp

text \<open>
  The scenario of the specification, on the small filter: add \<open>a\<close>; it tests as a
  member and the count is 1; removing it succeeds and the count is 0; removing it again
  fails and leaves the count at 0.
\<close>

lemma add_test_remove_scenario:
  "observe small_filter
     [OpAdd [97], OpTest [97], OpCount, OpTestAndRemove [97], OpCount,
      OpTestAndRemove [97], OpCount] =
   Inr ([RetSelf, RetBool True, RetUint 1, RetBool True, RetUint 0, RetBool False, RetUint 0],
        [0, 0, 0, 0], 0)"
  by code_simp

lemma small_add_ad: "Add small_filter [97, 100] = Inr used_filter"
  using Add_closed [OF small_invar small_m, of "[97, 100]"]
  by (simp add: small_indexList_ad) (simp add: small_filter_def used_filter_def bump_def clamp_def maxValue_def)


section \<open>The claims\<close>

text \<open>
  C1. No false negatives before any removal: for every finite sequence of \<open>Add\<close>
  calls in which no counter saturated (no increment met a counter that was already at
  its maximum), every element added in the sequence tests as a member afterwards. The
  sequence starts in any state that satisfies the invariant and has at least one
  bucket; it runs to its end, and \<open>Test\<close> returns true and leaves the filter as it is.
\<close>

theorem Add_only_no_false_negatives:
  assumes "invar c" and "m c \<noteq> 0" and "no_saturation c xs" and "x \<in> set xs"
  shows "\<exists>c'. add_all c xs = Inr c' \<and> Test c' x = Inr (True, c')"
proof (cases "k c = 0")
  case True
  from add_all_no_rounds [OF assms(1) True, of xs]
  obtain c' where "add_all c xs = Inr c'" "invar c'" "k c' = 0" "m c' = m c" by blast
  with assms(2) show ?thesis
    by (simp add: Test_closed indexList_no_rounds)
next
  case False
  from assms have "xs \<noteq> []" by auto
  with assms False have "0 < maxValue (buckets c)" by (simp add: no_saturation_pos)
  with assms add_all_member [of c x xs]
  obtain c' where "add_all c xs = Inr c'" "invar c'" "m c' = m c"
    "list_all (nonzero (buckets c')) (indexList c' x)" by blast
  with assms(2) show ?thesis
    by (simp add: Test_closed)
qed

theorem Add_only_no_false_negatives_witness:
  "invar small_filter \<and> m small_filter \<noteq> 0 \<and>
   no_saturation small_filter [[97], [98], [97, 100]] \<and>
   [98] \<in> set [[97], [98], [97, 100 :: byte]] \<and>
   (\<exists>c'. add_all small_filter [[97], [98], [97, 100]] = Inr c' \<and>
         Test c' [98] = Inr (True, c'))"
proof -
  have h3: "no_saturation small_filter [[97], [98], [97, 100]]" by code_simp
  have h4: "[98] \<in> set [[97], [98], [97, 100 :: byte]]" by simp
  from Add_only_no_false_negatives [OF small_invar small_m h3 h4] small_invar small_m h3 h4
  show ?thesis by blast
qed

text \<open>
  C2. \<open>TestAndRemove\<close> is all or nothing: whenever it returns false, the buckets and
  the count after the call are those before the call. An instance: in the filter that
  holds \<open>ad\<close>, the bytes 1, 3 fall on bucket 1, which is set, and on bucket 0, which is
  not; the call returns false and bucket 1 keeps its value.
\<close>

theorem TestAndRemove_false_leaves_filter:
  assumes "TestAndRemove c data = Inr (False, c')"
  shows "buckets c' = buckets c \<and> Count c' = Count c"
  using assms
  by (auto simp add: TestAndRemove_def hashKernel_eq Count_def split: sum.splits if_splits
      dest!: TestAndRemove_loop_frame)

theorem TestAndRemove_false_leaves_filter_witness:
  "indexList used_filter [1, 3] = [1, 0] \<and>
   counters (buckets used_filter) = [0, 1, 1, 0] \<and> Count used_filter = 1 \<and>
   TestAndRemove used_filter [1, 3] = Inr (False, used_filter\<lparr>indexBuffer := [1, 0]\<rparr>) \<and>
   buckets (used_filter\<lparr>indexBuffer := [1, 0]\<rparr>) = buckets used_filter \<and>
   Count (used_filter\<lparr>indexBuffer := [1, 0]\<rparr>) = Count used_filter"
proof -
  have idxs: "indexList used_filter [1, 3] = [1, 0]" by code_simp
  have before: "counters (buckets used_filter) = [0, 1, 1, 0] \<and> Count used_filter = 1"
    by code_simp
  have "\<not> list_all (nonzero (buckets used_filter)) [1, 0]" by code_simp
  then have h: "TestAndRemove used_filter [1, 3] =
                  Inr (False, used_filter\<lparr>indexBuffer := [1, 0]\<rparr>)"
    using TestAndRemove_closed [OF used_invar used_m, of "[1, 3]"]
    by (simp add: idxs)
  from TestAndRemove_false_leaves_filter [OF h] h idxs before show ?thesis by simp
qed

text \<open>
  C3. \<open>TestAndAdd\<close> is \<open>Test\<close> followed by \<open>Add\<close>: in every state that satisfies the
  invariant it gives the same result, boolean and final filter, or the same panic;
  and when the filter has a bucket all three calls return.
\<close>

theorem TestAndAdd_is_Test_then_Add:
  assumes "invar c"
  shows "TestAndAdd c data = Test_then_Add c data \<and>
         (m c \<noteq> 0 \<longrightarrow>
            (\<exists>r c2. Test c data = Inr (r, c) \<and> Add c data = Inr c2 \<and>
                    TestAndAdd c data = Inr (r, c2)))"
proof (intro conjI impI)
  show "TestAndAdd c data = Test_then_Add c data"
    using assms by (rule TestAndAdd_sequential)
next
  assume "m c \<noteq> 0"
  with assms show "\<exists>r c2. Test c data = Inr (r, c) \<and> Add c data = Inr c2 \<and>
                    TestAndAdd c data = Inr (r, c2)"
    by (simp add: Test_closed Add_closed TestAndAdd_closed)
qed

theorem TestAndAdd_is_Test_then_Add_witness:
  "invar used_filter \<and>
   TestAndAdd used_filter [97] = Test_then_Add used_filter [97] \<and>
   m used_filter \<noteq> 0 \<and>
   (\<exists>r c2. Test used_filter [97] = Inr (r, used_filter) \<and> Add used_filter [97] = Inr c2 \<and>
           TestAndAdd used_filter [97] = Inr (r, c2))"
  using TestAndAdd_is_Test_then_Add [OF used_invar, of "[97]"] used_invar used_m
  by blast

text \<open>
  C4, as stated, fails: \<open>Add(x)\<close> followed by \<open>TestAndRemove(x)\<close> does not restore a
  touched bucket that was at its maximum before the \<open>Add\<close>. In the filter with one-bit
  counters that holds \<open>x\<close> and nothing else, the two calls leave the buckets 1 and 2 of
  \<open>x\<close> at 0, where they were at 1; the count is back at 1.
\<close>

theorem Add_TestAndRemove_saturated_counterexample:
  "NewCountingBloomFilter (2 ^ 45) (\<lambda>n p. 4 * n) (\<lambda>p. 2) 1 1 (1 / 4 :: real) = Inr tight_filter \<and>
   observe tight_filter [OpAdd [97, 100]] = Inr ([RetSelf], [0, 1, 1, 0], 1) \<and>
   observe tight_filter [OpAdd [97, 100], OpAdd [97, 100], OpTestAndRemove [97, 100]] =
     Inr ([RetSelf, RetSelf, RetBool True], [0, 0, 0, 0], 1)"
proof (intro conjI)
  show "NewCountingBloomFilter (2 ^ 45) (\<lambda>n p. 4 * n) (\<lambda>p. 2) 1 1 (1 / 4 :: real) = Inr tight_filter"
    by (rule tight_fresh)
  show "observe tight_filter [OpAdd [97, 100]] = Inr ([RetSelf], [0, 1, 1, 0], 1)"
    by code_simp
  show "observe tight_filter [OpAdd [97, 100], OpAdd [97, 100], OpTestAndRemove [97, 100]] =
          Inr ([RetSelf, RetSelf, RetBool True], [0, 0, 0, 0], 1)"
    by code_simp
qed

text \<open>
  C4, amended. In every state that satisfies the invariant and has a bucket, if no
  increment of \<open>Add(x)\<close> meets a counter that is already at its maximum, then \<open>Add(x)\<close>
  followed by \<open>TestAndRemove(x)\<close> returns true and restores all buckets and the count.
\<close>

theorem Add_TestAndRemove_inverse:
  assumes "invar c" and "m c \<noteq> 0" and "\<not> hits_max (buckets c) (indexList c x)"
  shows "\<exists>c1 c2. Add c x = Inr c1 \<and> TestAndRemove c1 x = Inr (True, c2) \<and>
           buckets c2 = buckets c \<and> Count c2 = Count c"
proof -
  let ?idxs = "indexList c x"
  let ?c1 = "c\<lparr>buckets := bump_all 1 (buckets c) ?idxs, count := count c + 1\<rparr>"
  have range: "in_range (buckets c) ?idxs"
    using assms by (simp add: in_range_indexList invar_def)
  have add: "Add c x = Inr ?c1" using assms by (simp add: Add_closed)
  have inv1: "invar ?c1" using assms by (simp add: invar_bump_all)
  have member: "list_all (nonzero (buckets ?c1)) (indexList ?c1 x)"
  proof (cases "?idxs = []")
    case True
    then show ?thesis by simp
  next
    case False
    with assms(3) have "0 < maxValue (buckets c)" by (rule hits_max_pos)
    with range show ?thesis
      by (auto simp add: list_all_iff in_range_def intro!: nonzero_bump_all)
  qed
  have restored: "bump_all (- 1) (bump_all 1 (buckets c) ?idxs) ?idxs = buckets c"
    using assms range by (intro bump_all_inverse) (simp_all add: invar_def)
  have "TestAndRemove ?c1 x =
          Inr (True, ?c1\<lparr>indexBuffer := ?idxs, buckets := buckets c, count := count c\<rparr>)"
    using inv1 assms(2) member restored by (simp add: TestAndRemove_closed)
  with add show ?thesis by (simp add: Count_def)
qed

theorem Add_TestAndRemove_inverse_witness:
  "invar used_filter \<and> m used_filter \<noteq> 0 \<and>
   \<not> hits_max (buckets used_filter) (indexList used_filter [97, 100]) \<and>
   (\<exists>c1 c2. Add used_filter [97, 100] = Inr c1 \<and>
            TestAndRemove c1 [97, 100] = Inr (True, c2) \<and>
            buckets c2 = buckets used_filter \<and> Count c2 = Count used_filter)"
proof -
  have h: "\<not> hits_max (buckets used_filter) (indexList used_filter [97, 100])" by code_simp
  from Add_TestAndRemove_inverse [OF used_invar used_m h] used_invar used_m h
  show ?thesis by blast
qed

text \<open>
  C5, as stated, fails, in two ways. \<open>Reset\<close> sets the count to zero whatever was added
  before: after \<open>Add\<close> and \<open>Reset\<close> on a fresh filter \<open>Count()\<close> is 0, while one \<open>Add\<close>
  and no removal were performed. And the count is a \<open>uint\<close>: after one \<open>Add\<close> and two
  \<open>TestAndRemove\<close> calls that return true \<open>Count()\<close> is \<open>2^64 - 1\<close>, not \<open>1 - 2\<close>.
\<close>

theorem Count_after_Reset_counterexample:
  "NewCountingBloomFilter (2 ^ 45) (\<lambda>n p. 4 * n) (\<lambda>p. 2) 1 4 (1 / 4 :: real) = Inr small_filter \<and>
   observe small_filter [OpAdd [97], OpReset, OpCount] =
     Inr ([RetSelf, RetSelf, RetUint 0], [0, 0, 0, 0], 0) \<and>
   claimed_count (zip [OpAdd [97], OpReset, OpCount] [RetSelf, RetSelf, RetUint 0]) = 1 \<and>
   observe small_filter [OpAdd [97, 100], OpTestAndRemove [97], OpTestAndRemove [98], OpCount] =
     Inr ([RetSelf, RetBool True, RetBool True, RetUint (2 ^ 64 - 1)], [0, 0, 0, 0], 2 ^ 64 - 1) \<and>
   claimed_count (zip [OpAdd [97, 100], OpTestAndRemove [97], OpTestAndRemove [98], OpCount]
                      [RetSelf, RetBool True, RetBool True, RetUint (2 ^ 64 - 1)]) = - 1"
proof (intro conjI)
  show "NewCountingBloomFilter (2 ^ 45) (\<lambda>n p. 4 * n) (\<lambda>p. 2) 1 4 (1 / 4 :: real) = Inr small_filter"
    by (rule small_fresh)
  show "observe small_filter [OpAdd [97], OpReset, OpCount] =
          Inr ([RetSelf, RetSelf, RetUint 0], [0, 0, 0, 0], 0)"
    by code_simp
  show "claimed_count (zip [OpAdd [97], OpReset, OpCount] [RetSelf, RetSelf, RetUint 0]) = 1"
    by simp
  show "observe small_filter
          [OpAdd [97, 100], OpTestAndRemove [97], OpTestAndRemove [98], OpCount] =
        Inr ([RetSelf, RetBool True, RetBool True, RetUint (2 ^ 64 - 1)],
             [0, 0, 0, 0], 2 ^ 64 - 1)"
    by code_simp
  show "claimed_count (zip [OpAdd [97, 100], OpTestAndRemove [97], OpTestAndRemove [98], OpCount]
                           [RetSelf, RetBool True, RetBool True, RetUint (2 ^ 64 - 1)]) = - 1"
    by simp
qed

text \<open>
  C5, amended. After every finite sequence of public operations that starts from a
  freshly constructed filter and runs to its end, \<open>Count()\<close> equals, modulo \<open>2^64\<close>, the
  number of \<open>Add\<close> and \<open>TestAndAdd\<close> calls since the last \<open>Reset\<close> (or since
  construction) minus the number of \<open>TestAndRemove\<close> calls since then that returned
  true.
\<close>

theorem Count_net_since_Reset:
  assumes "NewCountingBloomFilter maxLen OptimalM OptimalK n bits fpRate = Inr c0"
    and "run c0 ops = Inr (outs, c)"
  shows "uint (Count c) = net_count 0 (zip ops outs) mod 2 ^ 64"
proof -
  from assms(1) have "count c0 = 0"
    by (auto simp add: NewCountingBloomFilter_def Let_def split: sum.splits)
  with count_run [OF assms(2)] have "Count c = word_of_int (net_count 0 (zip ops outs))"
    by (simp add: Count_def)
  then show ?thesis
    by (simp add: uint_word_of_int)
qed

theorem Count_net_since_Reset_witness:
  "\<exists>c. NewCountingBloomFilter (2 ^ 45) (\<lambda>n p. 4 * n) (\<lambda>p. 2) 1 4 (1 / 4 :: real) = Inr small_filter \<and>
       run small_filter [OpAdd [97], OpReset, OpTestAndAdd [98], OpAdd [97], OpTestAndRemove [98]] =
         Inr ([RetSelf, RetSelf, RetBool False, RetSelf, RetBool True], c) \<and>
       uint (Count c) =
         net_count 0 (zip [OpAdd [97], OpReset, OpTestAndAdd [98], OpAdd [97], OpTestAndRemove [98]]
                          [RetSelf, RetSelf, RetBool False, RetSelf, RetBool True]) mod 2 ^ 64 \<and>
       Count c = 1"
proof -
  have "observe small_filter [OpAdd [97], OpReset, OpTestAndAdd [98], OpAdd [97], OpTestAndRemove [98]] =
          Inr ([RetSelf, RetSelf, RetBool False, RetSelf, RetBool True], [0, 0, 2, 0], 1)"
    by code_simp
  then obtain c where
    r: "run small_filter [OpAdd [97], OpReset, OpTestAndAdd [98], OpAdd [97], OpTestAndRemove [98]] =
          Inr ([RetSelf, RetSelf, RetBool False, RetSelf, RetBool True], c)"
    and n: "Count c = 1"
    by (blast dest: observeD)
  from Count_net_since_Reset [OF small_fresh r] small_fresh r n show ?thesis by blast
qed

text \<open>
  C6. Every operation computes one digest of the element, splits it into its low and
  high 32 bits \<open>lower\<close> and \<open>upper\<close>, and works on the buckets
  \<open>(lower + upper * i) mod m\<close> for the rounds \<open>i\<close> below \<open>k\<close>: \<open>Test\<close> asks whether
  they are all non-zero, \<open>Add\<close> increments them in turn, \<open>TestAndAdd\<close> does both,
  \<open>TestAndRemove\<close> stores them in the index buffer and decrements them in turn when
  they are all non-zero. The sum and the product are computed on \<open>uint\<close>; for every
  round below \<open>2^32\<close> they do not wrap around, and the index is the remainder of the
  natural number \<open>lower + upper * i\<close>. The filter satisfies the invariant and has a
  bucket.
\<close>

theorem operations_use_one_digest:
  assumes "invar c" and "m c \<noteq> 0"
  shows
    "let d = sum64 (hash c) data;
         lower = ucast d :: uint32;
         upper = ucast (drop_bit 32 d) :: uint32;
         idxs = map (\<lambda>i. (ucast lower + ucast upper * of_nat i) mod m c) [0..<unat (k c)]
     in hashKernel c data = ((lower, upper), c) \<and>
        (\<forall>i < unat (k c). i < 2 ^ 32 \<longrightarrow>
           unat (idxs ! i) = (unat lower + unat upper * i) mod unat (m c)) \<and>
        Test c data = Inr (list_all (nonzero (buckets c)) idxs, c) \<and>
        Add c data = Inr (c\<lparr>buckets := bump_all 1 (buckets c) idxs, count := count c + 1\<rparr>) \<and>
        TestAndAdd c data =
          Inr (list_all (nonzero (buckets c)) idxs,
               c\<lparr>buckets := bump_all 1 (buckets c) idxs, count := count c + 1\<rparr>) \<and>
        TestAndRemove c data =
          Inr (if list_all (nonzero (buckets c)) idxs
               then (True, c\<lparr>indexBuffer := idxs,
                             buckets := bump_all (- 1) (buckets c) idxs,
                             count := count c - 1\<rparr>)
               else (False, c\<lparr>indexBuffer := idxs\<rparr>))"
proof -
  let ?lower = "ucast (sum64 (hash c) data) :: uint32"
  let ?upper = "ucast (drop_bit 32 (sum64 (hash c) data)) :: uint32"
  have idxs: "indexList c data =
          map (\<lambda>i. (ucast ?lower + ucast ?upper * of_nat i) mod m c) [0..<unat (k c)]"
    by (simp add: indexList_def Let_def rounds_def bucketIndex_def fun_eq_iff)
  have exact: "unat (indexList c data ! i) = (unat ?lower + unat ?upper * i) mod unat (m c)"
    if "i < unat (k c)" and "i < 2 ^ 32" for i
    using that bucketIndex_exact [of i ?lower ?upper "m c"]
    by (simp add: indexList_def Let_def rounds_def)
  from assms idxs exact show ?thesis
    using Test_closed [of c data] Add_closed [of c data] TestAndAdd_closed [of c data]
      TestAndRemove_closed [of c data] hashKernel_invar [of c data]
    by (simp add: Let_def)
qed

theorem operations_use_one_digest_witness:
  "invar used_filter \<and> m used_filter \<noteq> 0 \<and>
   (let d = sum64 (hash used_filter) [97, 100];
        lower = ucast d :: uint32;
        upper = ucast (drop_bit 32 d) :: uint32;
        idxs = map (\<lambda>i. (ucast lower + ucast upper * of_nat i) mod m used_filter)
                 [0..<unat (k used_filter)]
    in hashKernel used_filter [97, 100] = ((lower, upper), used_filter) \<and>
       (\<forall>i < unat (k used_filter). i < 2 ^ 32 \<longrightarrow>
          unat (idxs ! i) = (unat lower + unat upper * i) mod unat (m used_filter)) \<and>
       Test used_filter [97, 100] = Inr (list_all (nonzero (buckets used_filter)) idxs, used_filter) \<and>
       Add used_filter [97, 100] =
         Inr (used_filter\<lparr>buckets := bump_all 1 (buckets used_filter) idxs,
                          count := count used_filter + 1\<rparr>) \<and>
       TestAndAdd used_filter [97, 100] =
         Inr (list_all (nonzero (buckets used_filter)) idxs,
              used_filter\<lparr>buckets := bump_all 1 (buckets used_filter) idxs,
                           count := count used_filter + 1\<rparr>) \<and>
       TestAndRemove used_filter [97, 100] =
         Inr (if list_all (nonzero (buckets used_filter)) idxs
              then (True, used_filter\<lparr>indexBuffer := idxs,
                            buckets := bump_all (- 1) (buckets used_filter) idxs,
                            count := count used_filter - 1\<rparr>)
              else (False, used_filter\<lparr>indexBuffer := idxs\<rparr>))) \<and>
   indexList used_filter [97, 100] = [2, 1]"
proof -
  have "indexList used_filter [97, 100] = [2, 1]" by code_simp
  with operations_use_one_digest [OF used_invar used_m, of "[97, 100]"] used_invar used_m
  show ?thesis by (intro conjI)
qed

text \<open>
  C7. \<open>Test\<close> returns true exactly when all \<open>k\<close> buckets of the element are non-zero,
  and leaves buckets, count, \<open>m\<close>, \<open>k\<close> and \<open>b\<close> as they were. The filter satisfies the
  invariant and has a bucket; \<open>Test\<close> then returns.
\<close>

theorem Test_iff_all_nonzero:
  assumes "invar c" and "m c \<noteq> 0"
  shows "\<exists>r c'. Test c data = Inr (r, c') \<and>
           (r \<longleftrightarrow> (\<forall>idx \<in> set (indexList c data). counters (buckets c) ! unat idx \<noteq> 0)) \<and>
           buckets c' = buckets c \<and> count c' = count c \<and>
           m c' = m c \<and> k c' = k c \<and> b c' = b c"
  using assms by (simp add: Test_closed list_all_iff nonzero_def)

theorem Test_iff_all_nonzero_witness:
  "invar used_filter \<and> m used_filter \<noteq> 0 \<and>
   (\<exists>r c'. Test used_filter [97] = Inr (r, c') \<and>
      (r \<longleftrightarrow> (\<forall>idx \<in> set (indexList used_filter [97]).
                counters (buckets used_filter) ! unat idx \<noteq> 0)) \<and>
      buckets c' = buckets used_filter \<and> count c' = count used_filter \<and>
      m c' = m used_filter \<and> k c' = k used_filter \<and> b c' = b used_filter)"
  using Test_iff_all_nonzero [OF used_invar used_m, of "[97]"] used_invar used_m
  by (intro conjI)

text \<open>
  C8. \<open>Reset\<close> twice is \<open>Reset\<close> once; after \<open>Reset\<close> the count is 0, and \<open>Test\<close>
  returns false for every element, in a filter that has a bucket for each of its
  \<open>m \<ge> 1\<close> indices and at least one round.
\<close>

theorem Reset_idempotent:
  "Reset (Reset c) = Reset c \<and> Count (Reset c) = 0 \<and>
   (m c \<noteq> 0 \<and> k c \<noteq> 0 \<and> bucketCount (buckets c) = unat (m c) \<longrightarrow>
      (\<exists>c'. Test (Reset c) data = Inr (False, c')))"
proof (intro conjI impI)
  show "Reset (Reset c) = Reset c"
    by (simp add: Reset_def Buckets_Reset_def bucketCount_def)
  show "Count (Reset c) = 0"
    by (simp add: Reset_def Count_def)
next
  assume "m c \<noteq> 0 \<and> k c \<noteq> 0 \<and> bucketCount (buckets c) = unat (m c)"
  then show "\<exists>c'. Test (Reset c) data = Inr (False, c')"
    by (simp add: Test_after_Reset)
qed

theorem Reset_idempotent_witness:
  "Reset (Reset used_filter) = Reset used_filter \<and> Count (Reset used_filter) = 0 \<and>
   m used_filter \<noteq> 0 \<and> k used_filter \<noteq> 0 \<and>
   bucketCount (buckets used_filter) = unat (m used_filter) \<and>
   (\<exists>c'. Test (Reset used_filter) [97, 100] = Inr (False, c'))"
proof -
  have h: "m used_filter \<noteq> 0 \<and> k used_filter \<noteq> 0 \<and>
           bucketCount (buckets used_filter) = unat (m used_filter)"
    by code_simp
  from Reset_idempotent [of used_filter "[97, 100]"] h show ?thesis by blast
qed

text \<open>
  C9, as stated, fails for capacity 0: the constructor checks none of its arguments.
  With capacity 0, sizing helpers that give no bucket for no element and seven rounds,
  and seven within the limit of \<open>make\<close>, the default constructor returns a filter
  without buckets, and the first \<open>Test\<close> on that filter panics with a division by zero.
\<close>

theorem New_accepts_zero_capacity_counterexample:
  "NewDefaultCountingBloomFilter (2 ^ 45) (\<lambda>n p. 10 * n) (\<lambda>p. 7) 0 (1 / 100 :: real) =
     Inr empty_filter \<and>
   Test empty_filter [97] = Inl DivideByZero"
proof (intro conjI)
  show "NewDefaultCountingBloomFilter (2 ^ 45) (\<lambda>n p. 10 * n) (\<lambda>p. 7) 0 (1 / 100 :: real) =
          Inr empty_filter"
    by (rule empty_fresh)
  have "m empty_filter = 0" and "k empty_filter \<noteq> 0"
    by (simp_all add: empty_filter_def)
  then show "Test empty_filter [97] = Inl DivideByZero"
    by (simp add: Test_def hashKernel_eq loops_no_buckets)
qed

text \<open>
  C9, amended. Construction with capacity 0 is not rejected. Whenever the sizing
  helpers give no bucket for capacity 0 and a number of rounds that is at least 1 and
  that \<open>make\<close> accepts, both constructors return a filter without buckets, and the
  misconfiguration shows later: every \<open>Test\<close>, \<open>Add\<close>, \<open>TestAndAdd\<close> and
  \<open>TestAndRemove\<close> on that filter panics with a division by zero. What a rate outside
  \<open>(0,1)\<close> leads to is decided by the sizing helpers and is left open.
\<close>

theorem New_zero_capacity_misbehaves_later:
  assumes "OptimalM 0 fpRate = 0" and "OptimalK fpRate \<noteq> 0"
    and "unat (OptimalK fpRate) \<le> maxLen"
  shows "\<exists>c c4.
           NewCountingBloomFilter maxLen OptimalM OptimalK 0 bits fpRate = Inr c \<and>
           NewDefaultCountingBloomFilter maxLen OptimalM OptimalK 0 fpRate = Inr c4 \<and>
           (\<forall>c' \<in> {c, c4}.
              Capacity c' = 0 \<and> counters (buckets c') = [] \<and>
              Test c' data = Inl DivideByZero \<and> Add c' data = Inl DivideByZero \<and>
              TestAndAdd c' data = Inl DivideByZero \<and>
              TestAndRemove c' data = Inl DivideByZero)"
proof -
  let ?new = "\<lambda>w. \<lparr>buckets = NewBuckets 0 w, hash = fnv_New64, m = 0, k = OptimalK fpRate,
                     b = w, count = 0, indexBuffer = replicate (unat (OptimalK fpRate)) 0\<rparr>"
  have new: "NewCountingBloomFilter maxLen OptimalM OptimalK 0 w fpRate = Inr (?new w)" for w
    using assms by (simp add: NewCountingBloomFilter_def make_uints_def Let_def)
  have later: "Capacity (?new w) = 0 \<and> counters (buckets (?new w)) = [] \<and>
               Test (?new w) data = Inl DivideByZero \<and> Add (?new w) data = Inl DivideByZero \<and>
               TestAndAdd (?new w) data = Inl DivideByZero \<and>
               TestAndRemove (?new w) data = Inl DivideByZero" for w
    using assms(2)
    by (simp add: Capacity_def NewBuckets_def Test_def Add_def TestAndAdd_def TestAndRemove_def
        hashKernel_eq loops_no_buckets)
  have "NewDefaultCountingBloomFilter maxLen OptimalM OptimalK 0 fpRate = Inr (?new 4)"
    by (simp add: NewDefaultCountingBloomFilter_def new)
  with new [of bits] later [of bits] later [of 4] show ?thesis by blast
qed

theorem New_zero_capacity_misbehaves_later_witness:
  "(10 * 0 :: uint) = 0 \<and> (7 :: uint) \<noteq> 0 \<and> unat (7 :: uint) \<le> 2 ^ 45 \<and>
   (\<exists>c c4.
      NewCountingBloomFilter (2 ^ 45) (\<lambda>n p. 10 * n) (\<lambda>p. 7) 0 2 (1 / 100 :: real) = Inr c \<and>
      NewDefaultCountingBloomFilter (2 ^ 45) (\<lambda>n p. 10 * n) (\<lambda>p. 7) 0 (1 / 100 :: real) =
        Inr c4 \<and> c4 = empty_filter \<and>
      Capacity c = 0 \<and> Test c [97] = Inl DivideByZero \<and> Add c [97] = Inl DivideByZero \<and>
      TestAndAdd c [97] = Inl DivideByZero \<and> TestAndRemove c [97] = Inl DivideByZero \<and>
      Capacity c4 = 0 \<and> Test c4 [97] = Inl DivideByZero \<and> Add c4 [97] = Inl DivideByZero \<and>
      TestAndAdd c4 [97] = Inl DivideByZero \<and> TestAndRemove c4 [97] = Inl DivideByZero)"
proof -
  have h: "(10 * 0 :: uint) = 0 \<and> (7 :: uint) \<noteq> 0 \<and> unat (7 :: uint) \<le> 2 ^ 45"
    by simp
  with New_zero_capacity_misbehaves_later
         [where OptimalM = "\<lambda>n p. 10 * n" and OptimalK = "\<lambda>p. 7" and maxLen = "2 ^ 45"
            and fpRate = "1 / 100 :: real" and bits = 2 and data = "[97]"]
       empty_fresh
  show ?thesis by auto
qed

text \<open>
  C10. The count is decremented without a zero guard and wraps around. On a fresh
  filter with four buckets and two rounds, the bytes \<open>ad\<close> are added, which sets the
  buckets 2 and 1. The bytes \<open>a\<close> (bucket 2 in both rounds) and \<open>b\<close> (bucket 1 in both
  rounds) were never added, but test as members: \<open>TestAndRemove\<close> of \<open>a\<close> returns true
  and brings the count to 0, \<open>TestAndRemove\<close> of \<open>b\<close> returns true again, and the count
  becomes \<open>2^64 - 1\<close>.
\<close>

theorem Count_wraps_below_zero:
  "NewCountingBloomFilter (2 ^ 45) (\<lambda>n p. 4 * n) (\<lambda>p. 2) 1 4 (1 / 4 :: real) = Inr small_filter \<and>
   observe small_filter
     [OpAdd [97, 100], OpCount, OpTestAndRemove [97], OpCount, OpTestAndRemove [98], OpCount] =
   Inr ([RetSelf, RetUint 1, RetBool True, RetUint 0, RetBool True, RetUint (2 ^ 64 - 1)],
        [0, 0, 0, 0], 2 ^ 64 - 1)"
proof (intro conjI)
  show "NewCountingBloomFilter (2 ^ 45) (\<lambda>n p. 4 * n) (\<lambda>p. 2) 1 4 (1 / 4 :: real) = Inr small_filter"
    by (rule small_fresh)
  show "observe small_filter
          [OpAdd [97, 100], OpCount, OpTestAndRemove [97], OpCount, OpTestAndRemove [98], OpCount] =
        Inr ([RetSelf, RetUint 1, RetBool True, RetUint 0, RetBool True, RetUint (2 ^ 64 - 1)],
             [0, 0, 0, 0], 2 ^ 64 - 1)"
    by code_simp
qed

end
